theory Spec2Isabelle
  imports Main "HOL-Library.AList"
begin

section \<open>The batch scheduler of url2pdf.js\<close>

text \<open>
  The script runs in two roles. The master (the branch \<^verbatim>\<open>cluster.isMaster\<close>) owns the task
  table, the task queue, the counters and the timers; the workers run \<^verbatim>\<open>processUrl\<close> and
  report with \<^verbatim>\<open>process.send\<close>. The master is a single-threaded event loop, so its behaviour
  is a step function on a state record: one step per callback that the event loop runs.
  What the callbacks do outside the state (sending to a worker, forking, killing, printing)
  is appended to the field \<open>effects\<close>, in the order in which the statements run.
\<close>

subsection \<open>Data\<close>

text \<open>The four strings stored in \<^verbatim>\<open>taskStatus[i].status\<close>:
  \<^verbatim>\<open>'Pending'\<close>, \<^verbatim>\<open>'In Progress'\<close>, \<^verbatim>\<open>'Completed'\<close>, \<^verbatim>\<open>'Timed Out'\<close>.\<close>

datatype task_state = Pending | InProgress | Completed | TimedOut

text \<open>An entry of \<^verbatim>\<open>taskStatus\<close>: \<^verbatim>\<open>{ id, status, progress, duration }\<close>.\<close>

record task_status =
  task_id :: nat
  status :: task_state
  progress :: nat
  duration :: string

text \<open>An entry of \<^verbatim>\<open>taskQueue\<close>: \<^verbatim>\<open>{ url, index }\<close>.\<close>

record task =
  url :: string
  index :: nat

text \<open>The messages a worker sends to the master with \<^verbatim>\<open>process.send\<close>:
  \<^verbatim>\<open>{type:'status', workerId, status}\<close>, \<^verbatim>\<open>{type:'progress', index, progress}\<close> and
  \<^verbatim>\<open>{type:'completed', index, workerId, fileName}\<close>.\<close>

datatype msg =
    StatusMsg nat string
  | ProgressMsg nat nat
  | CompletedMsg nat nat string

text \<open>The lines written with \<^verbatim>\<open>console.log\<close> and \<^verbatim>\<open>console.clear\<close>. The process ids
  in the source's texts are not modelled; \<open>WorkerExitedLine\<close> carries the worker id instead.\<close>

datatype line =
    TaskTimedOutLine nat
  | ConsoleClear
  | MasterRunningLine
  | WorkerStatusHeader
  | WorkerLine nat string
  | TaskStatusHeader
  | TaskLine nat nat task_state string
  | TotalsLine nat nat nat int
  | AllTasksCompleted
  | TotalTasksLine nat
  | SuccessfullyCompletedLine nat
  | TimedOutTasksLine nat
  | ShuttingDownLine
  | WorkerExitedLine nat
  | StartingNewWorkerLine

text \<open>What the master does to the outside: \<open>Send w u i\<close> is
  \<^verbatim>\<open>cluster.workers[w].send({type:'start', url:u, index:i})\<close>, \<open>Fork w\<close> is a
  \<^verbatim>\<open>cluster.fork()\<close> that returned the worker with id \<open>w\<close>, \<open>Kill w\<close> is
  \<^verbatim>\<open>cluster.workers[w].kill()\<close>.\<close>

datatype effect =
    Print line
  | Send nat string nat
  | Fork nat
  | Kill nat

text \<open>The uncaught exception of the master: reading a property of \<^verbatim>\<open>undefined\<close>.\<close>

datatype error = TypeError

text \<open>
  The state of the master. The first group of fields are the variables of the master
  branch. The second group is the part of the runtime that the callbacks read or change:
  the keys of \<^verbatim>\<open>cluster.workers\<close> in insertion order, the id that the next
  \<^verbatim>\<open>cluster.fork()\<close> gives, the workers whose \<^verbatim>\<open>'online'\<close> listener has not run yet, the
  armed timers of \<^verbatim>\<open>setTimeout\<close> (task index and worker id captured by the closure, and the
  delay), and whether \<^verbatim>\<open>consoleUpdateInterval\<close> is still armed.
\<close>

record master =
  urls :: "string list"
  taskStatus :: "task_status list"
  workerStatus :: "(nat \<times> string) list"
  pdfInfo :: "(nat \<times> string) list"
  completedTasks :: nat
  timedOutTasks :: nat
  totalProcessedTasks :: nat
  taskQueue :: "task list"
  startTimes :: "(nat \<times> nat) list"
  inProgress :: "nat set"
  consoleUpdateInterval :: bool
  cluster_workers :: "nat list"
  next_worker_id :: nat
  awaiting_online :: "nat set"
  timers :: "(nat \<times> nat \<times> nat) list"
  effects :: "effect list"

definition TASK_TIMEOUT :: nat where
  "TASK_TIMEOUT = 300000"

subsection \<open>The callbacks of the master\<close>

text \<open>\<^verbatim>\<open>updateConsole\<close>: clears the console and prints the worker table, the task table and
  the totals. \<^verbatim>\<open>Remaining\<close> is a JavaScript subtraction, hence an integer.\<close>

definition console_lines :: "master \<Rightarrow> line list" where
  "console_lines s =
     [ConsoleClear, MasterRunningLine, WorkerStatusHeader]
     @ map (\<lambda>(w, st). WorkerLine w st) (workerStatus s)
     @ [TaskStatusHeader]
     @ map (\<lambda>t. TaskLine (task_id t) (progress t) (status t) (duration t)) (taskStatus s)
     @ [TotalsLine (length (urls s)) (completedTasks s) (timedOutTasks s)
          (int (length (urls s)) - int (totalProcessedTasks s))]"

definition updateConsole :: "master \<Rightarrow> master" where
  "updateConsole s = s\<lparr>effects := effects s @ map Print (console_lines s)\<rparr>"

text \<open>\<^verbatim>\<open>checkCompletion\<close>: when the processed count equals the number of urls, clear the
  interval, print the final table and the final counts, and kill every worker that is in
  \<^verbatim>\<open>cluster.workers\<close>. There is no flag that remembers that this has run.\<close>

definition checkCompletion :: "master \<Rightarrow> master" where
  "checkCompletion s =
     (if totalProcessedTasks s = length (urls s) then
        (let s1 = updateConsole (s\<lparr>consoleUpdateInterval := False\<rparr>)
         in s1\<lparr>effects := effects s1
              @ [Print AllTasksCompleted,
                 Print (TotalTasksLine (length (urls s1))),
                 Print (SuccessfullyCompletedLine (completedTasks s1)),
                 Print (TimedOutTasksLine (timedOutTasks s1)),
                 Print ShuttingDownLine]
              @ map Kill (cluster_workers s1)\<rparr>)
      else s)"

text \<open>
  \<^verbatim>\<open>assignTask(workerId)\<close>, with the value \<open>now\<close> of \<^verbatim>\<open>Date.now()\<close>. The statements before
  \<^verbatim>\<open>send\<close> index \<^verbatim>\<open>taskStatus\<close> with the task's index, and \<^verbatim>\<open>send\<close> is called on
  \<^verbatim>\<open>cluster.workers[workerId]\<close>: either is a TypeError when the entry is missing. The
  exception is not caught anywhere, so it ends the master and its state is gone. A
  \<^verbatim>\<open>send\<close> to a worker that is in \<^verbatim>\<open>cluster.workers\<close> is taken to succeed.
\<close>

definition assignTask :: "nat \<Rightarrow> nat \<Rightarrow> master \<Rightarrow> error + master" where
  "assignTask workerId now s =
     (case taskQueue s of
        [] \<Rightarrow> Inr s
      | t # rest \<Rightarrow>
          if \<not> index t < length (taskStatus s) then Inl TypeError
          else if workerId \<notin> set (cluster_workers s) then Inl TypeError
          else Inr (s\<lparr>taskQueue := rest,
                      startTimes := AList.update (index t) now (startTimes s),
                      inProgress := insert (index t) (inProgress s),
                      taskStatus := (taskStatus s)[index t :=
                         (taskStatus s ! index t)\<lparr>status := InProgress, progress := 10\<rparr>],
                      effects := effects s @ [Send workerId (url t) (index t)],
                      timers := timers s @ [(index t, workerId, TASK_TIMEOUT)]\<rparr>))"

text \<open>The closure given to \<^verbatim>\<open>setTimeout\<close> in \<^verbatim>\<open>assignTask\<close>, for the task index and the
  worker id that it captured. \<open>mark_timed_out\<close> is its statements from the
  \<^verbatim>\<open>console.log\<close> to \<^verbatim>\<open>totalProcessedTasks++\<close>; then it calls \<^verbatim>\<open>checkCompletion()\<close> and
  \<^verbatim>\<open>assignTask(workerId)\<close>.\<close>

definition mark_timed_out :: "nat \<Rightarrow> master \<Rightarrow> master" where
  "mark_timed_out i s =
     s\<lparr>effects := effects s @ [Print (TaskTimedOutLine (i + 1))],
       inProgress := inProgress s - {i},
       taskStatus := (taskStatus s)[i :=
          (taskStatus s ! i)\<lparr>status := TimedOut, progress := 0\<rparr>],
       timedOutTasks := timedOutTasks s + 1,
       totalProcessedTasks := totalProcessedTasks s + 1\<rparr>"

definition timeoutCallback :: "nat \<Rightarrow> nat \<Rightarrow> nat \<Rightarrow> master \<Rightarrow> error + master" where
  "timeoutCallback i workerId now s =
     (if i \<in> inProgress s then
        if \<not> i < length (taskStatus s) then Inl TypeError
        else assignTask workerId now (checkCompletion (mark_timed_out i s))
      else Inr s)"

text \<open>The three statements that follow every \<^verbatim>\<open>cluster.fork()\<close> of the source: the new
  worker is entered in \<^verbatim>\<open>cluster.workers\<close>, \<^verbatim>\<open>workerStatus[worker.id] = 'Idle'\<close>, and an
  \<^verbatim>\<open>'online'\<close> listener that calls \<^verbatim>\<open>assignTask(worker.id)\<close> is registered.\<close>

definition fork_worker :: "master \<Rightarrow> master" where
  "fork_worker s =
     (let w = next_worker_id s
      in s\<lparr>cluster_workers := cluster_workers s @ [w],
           next_worker_id := w + 1,
           effects := effects s @ [Fork w],
           workerStatus := AList.update w ''Idle'' (workerStatus s),
           awaiting_online := insert w (awaiting_online s)\<rparr>)"

text \<open>The listener of \<^verbatim>\<open>cluster.on('exit')\<close>, for the worker id of the worker that exited.\<close>

definition onExit :: "nat \<Rightarrow> master \<Rightarrow> master" where
  "onExit w s =
     (let s1 = s\<lparr>effects := effects s @ [Print (WorkerExitedLine w)],
                 workerStatus := AList.delete w (workerStatus s)\<rparr>
      in if taskQueue s1 \<noteq> [] \<or> inProgress s1 \<noteq> {}
         then fork_worker (s1\<lparr>effects := effects s1 @ [Print StartingNewWorkerLine]\<rparr>)
         else s1)"

subsection \<open>Start of the master\<close>

text \<open>The loop \<^verbatim>\<open>for (let i = 0; i < numCPUs; i++)\<close>; the first argument counts the
  iterations that are left.\<close>

fun fork_loop :: "nat \<Rightarrow> master \<Rightarrow> master" where
  "fork_loop 0 s = s"
| "fork_loop (Suc n) s = fork_loop n (fork_worker s)"

text \<open>The state after the master branch has run to its end, for \<^verbatim>\<open>os.cpus().length\<close> and
  the urls read from the sheet: \<^verbatim>\<open>taskStatus\<close> and \<^verbatim>\<open>taskQueue\<close> are the two
  \<^verbatim>\<open>urls.map((url, index) => ...)\<close>. Worker ids of the cluster module start at 1.\<close>

definition initial_status :: "string list \<Rightarrow> task_status list" where
  "initial_status us =
     map (\<lambda>(i, u). \<lparr>task_id = i + 1, status = Pending, progress = 0, duration = ''-''\<rparr>)
       (enumerate 0 us)"

definition initial_queue :: "string list \<Rightarrow> task list" where
  "initial_queue us = map (\<lambda>(i, u). \<lparr>url = u, index = i\<rparr>) (enumerate 0 us)"

definition init :: "nat \<Rightarrow> string list \<Rightarrow> master" where
  "init numCPUs us =
     fork_loop numCPUs
       \<lparr>urls = us,
        taskStatus = initial_status us,
        workerStatus = [],
        pdfInfo = [],
        completedTasks = 0,
        timedOutTasks = 0,
        totalProcessedTasks = 0,
        taskQueue = initial_queue us,
        startTimes = [],
        inProgress = {},
        consoleUpdateInterval = True,
        cluster_workers = [],
        next_worker_id = 1,
        awaiting_online = {},
        timers = [],
        effects = [Print MasterRunningLine]\<rparr>"

subsection \<open>The event loop\<close>

text \<open>
  The callbacks that the event loop can run: the \<^verbatim>\<open>'online'\<close> listener of a worker, a timer
  of \<^verbatim>\<open>assignTask\<close>, the \<^verbatim>\<open>'exit'\<close> listener, the interval of \<^verbatim>\<open>updateConsole\<close>, and the
  arrival of a worker's message. \<open>WorkerOnline\<close> and \<open>TimeoutFired\<close> carry the value that
  \<^verbatim>\<open>Date.now()\<close> returns in the callback.
\<close>

datatype event =
    WorkerOnline nat nat
  | TimeoutFired nat nat nat
  | WorkerExit nat
  | WorkerMessage nat msg
  | IntervalTick

fun enabled :: "master \<Rightarrow> event \<Rightarrow> bool" where
  "enabled s (WorkerOnline w now) = (w \<in> awaiting_online s)"
| "enabled s (TimeoutFired i w now) = ((i, w, TASK_TIMEOUT) \<in> set (timers s))"
| "enabled s (WorkerExit w) = (w \<in> set (cluster_workers s))"
| "enabled s (WorkerMessage w m) = (w \<in> set (cluster_workers s))"
| "enabled s IntervalTick = consoleUpdateInterval s"

text \<open>
  One turn of the event loop. A timer that fires is no longer armed; a worker that exits
  is taken to have left \<^verbatim>\<open>cluster.workers\<close> when the \<^verbatim>\<open>'exit'\<close> listener runs (the cluster
  module removes it once it has exited and disconnected). The master branch
  registers no \<^verbatim>\<open>'message'\<close> listener, neither on \<^verbatim>\<open>cluster\<close> nor on a worker, so a message
  of a worker runs no code of the master.
\<close>

fun handle :: "master \<Rightarrow> event \<Rightarrow> error + master" where
  "handle s (WorkerOnline w now) =
     assignTask w now (s\<lparr>awaiting_online := awaiting_online s - {w}\<rparr>)"
| "handle s (TimeoutFired i w now) =
     timeoutCallback i w now (s\<lparr>timers := remove1 (i, w, TASK_TIMEOUT) (timers s)\<rparr>)"
| "handle s (WorkerExit w) =
     Inr (onExit w (s\<lparr>cluster_workers := removeAll w (cluster_workers s),
                      awaiting_online := awaiting_online s - {w}\<rparr>))"
| "handle s (WorkerMessage w m) = Inr s"
| "handle s IntervalTick = Inr (updateConsole s)"

text \<open>A run: \<open>None\<close> when an event of the list cannot happen in the state it meets,
  otherwise the state of the master or the exception that ended it.\<close>

fun run :: "master \<Rightarrow> event list \<Rightarrow> (error + master) option" where
  "run s [] = Some (Inr s)"
| "run s (e # es) =
     (if enabled s e then
        (case handle s e of Inl err \<Rightarrow> Some (Inl err) | Inr s' \<Rightarrow> run s' es)
      else None)"

text \<open>The state at the end of a run that has one.\<close>

definition state_of :: "(error + master) option \<Rightarrow> master" where
  "state_of r = projr (the r)"

text \<open>The states that the master can be in.\<close>

inductive reachable :: "master \<Rightarrow> bool" where
  start: "reachable (init numCPUs us)"
| turn: "reachable s \<Longrightarrow> enabled s e \<Longrightarrow> handle s e = Inr s' \<Longrightarrow> reachable s'"

subsection \<open>The worker: the file name of \<^verbatim>\<open>processUrl\<close>\<close>

text \<open>\<^verbatim>\<open>String(n)\<close> for a non-negative integer: its decimal digits.\<close>

definition digit_char :: "nat \<Rightarrow> char" where
  "digit_char d =
     (if d = 0 then CHR ''0'' else if d = 1 then CHR ''1'' else if d = 2 then CHR ''2''
      else if d = 3 then CHR ''3'' else if d = 4 then CHR ''4'' else if d = 5 then CHR ''5''
      else if d = 6 then CHR ''6'' else if d = 7 then CHR ''7'' else if d = 8 then CHR ''8''
      else CHR ''9'')"

fun String_nat :: "nat \<Rightarrow> string" where
  "String_nat n =
     (if n < 10 then [digit_char n] else String_nat (n div 10) @ [digit_char (n mod 10)])"

declare String_nat.simps [simp del]

text \<open>\<^verbatim>\<open>s.padStart(n, c)\<close> for a pad string of one character: a string that is already
  \<open>n\<close> long or longer is returned as it is.\<close>

definition padStart :: "nat \<Rightarrow> char \<Rightarrow> string \<Rightarrow> string" where
  "padStart n c s = replicate (n - length s) c @ s"

text \<open>The two readings of \<^verbatim>\<open>new Date()\<close> that the file name uses: \<^verbatim>\<open>getMonth()\<close>, which
  counts from 0, and \<^verbatim>\<open>getDate()\<close>.\<close>

record date =
  getMonth :: nat
  getDate :: nat

definition fileName :: "date \<Rightarrow> nat \<Rightarrow> string" where
  "fileName d idx =
     (let month = padStart 2 (CHR ''0'') (String_nat (getMonth d + 1));
          day = padStart 2 (CHR ''0'') (String_nat (getDate d));
          number = padStart 2 (CHR ''0'') (String_nat (idx + 1))
      in month @ day @ ''-'' @ number @ ''.pdf'')"

subsection \<open>The format of the file name, in the words of the specification\<close>

text \<open>A number below 100 written with two digits: \<open>MM\<close>, \<open>DD\<close> and \<open>NN\<close> of
  \<^verbatim>\<open>MMDD-NN.pdf\<close>.\<close>

definition two_digits :: "nat \<Rightarrow> string" where
  "two_digits n = [digit_char (n div 10), digit_char (n mod 10)]"

subsection \<open>What holds in every state of a run\<close>

text \<open>The number of tasks that have left the queue.\<close>

definition assigned :: "master \<Rightarrow> nat" where
  "assigned s = length (urls s) - length (taskQueue s)"

text \<open>
  The task table, the queue, the set \<^verbatim>\<open>inProgress\<close> and the counters fit together: the queue
  is what is left of the input, the tasks that have left it are in progress or timed out,
  and every task that is no longer in progress has been counted once as timed out. No
  statement of the master writes \<^verbatim>\<open>'Completed'\<close>, \<^verbatim>\<open>completedTasks\<close> or \<^verbatim>\<open>pdfInfo\<close>.
\<close>

definition inv_tasks :: "master \<Rightarrow> bool" where
  "inv_tasks s \<longleftrightarrow>
     length (taskStatus s) = length (urls s)
   \<and> length (taskQueue s) \<le> length (urls s)
   \<and> taskQueue s = drop (assigned s) (initial_queue (urls s))
   \<and> inProgress s \<subseteq> {i. i < assigned s}
   \<and> (\<forall>i < length (urls s). status (taskStatus s ! i) =
         (if assigned s \<le> i then Pending
          else if i \<in> inProgress s then InProgress else TimedOut))
   \<and> timedOutTasks s + card (inProgress s) = assigned s
   \<and> completedTasks s = 0
   \<and> totalProcessedTasks s = timedOutTasks s
   \<and> pdfInfo s = []"

text \<open>The ids in \<^verbatim>\<open>cluster.workers\<close> are distinct and older than the next id, and only a
  worker that is in \<^verbatim>\<open>cluster.workers\<close> can still come online.\<close>

definition inv_workers :: "master \<Rightarrow> bool" where
  "inv_workers s \<longleftrightarrow>
     distinct (cluster_workers s)
   \<and> (\<forall>w \<in> set (cluster_workers s). w < next_worker_id s)
   \<and> awaiting_online s \<subseteq> set (cluster_workers s)"

text \<open>The effects that only \<^verbatim>\<open>checkCompletion\<close> has: the lines of the final counts and
  the kills. \<open>shutdown_block\<close> is what one shutdown leaves of them, in its order.\<close>

fun shutdown_effect :: "effect \<Rightarrow> bool" where
  "shutdown_effect (Kill w) = True"
| "shutdown_effect (Print AllTasksCompleted) = True"
| "shutdown_effect (Print (TotalTasksLine n)) = True"
| "shutdown_effect (Print (SuccessfullyCompletedLine n)) = True"
| "shutdown_effect (Print (TimedOutTasksLine n)) = True"
| "shutdown_effect (Print ShuttingDownLine) = True"
| "shutdown_effect e = False"

definition shutdown_block :: "nat \<Rightarrow> nat \<Rightarrow> nat \<Rightarrow> nat list \<Rightarrow> effect list" where
  "shutdown_block n c t ws =
     [Print AllTasksCompleted, Print (TotalTasksLine n), Print (SuccessfullyCompletedLine c),
      Print (TimedOutTasksLine t), Print ShuttingDownLine] @ map Kill ws"

text \<open>Of these effects a run has none, or those of one shutdown, and then the processed
  count has reached the number of urls.\<close>

definition inv_shutdown :: "master \<Rightarrow> bool" where
  "inv_shutdown s \<longleftrightarrow>
     filter shutdown_effect (effects s) = []
   \<or> (length (urls s) \<le> totalProcessedTasks s
      \<and> (\<exists>c t ws. distinct ws
            \<and> filter shutdown_effect (effects s) = shutdown_block (length (urls s)) c t ws))"

text \<open>Every task in progress has one armed timer, and no other task has one.\<close>

definition inv_timers :: "master \<Rightarrow> bool" where
  "inv_timers s \<longleftrightarrow> distinct (map fst (timers s)) \<and> fst ` set (timers s) = inProgress s"

section \<open>Properties\<close>

subsection \<open>The task table, the queue and the counters\<close>

lemma length_initial_queue [simp]: "length (initial_queue us) = length us"
  by (simp add: initial_queue_def)

lemma nth_initial_queue:
  "k < length us \<Longrightarrow> initial_queue us ! k = \<lparr>url = us ! k, index = k\<rparr>"
  by (simp add: initial_queue_def nth_enumerate_eq)

lemma length_initial_status [simp]: "length (initial_status us) = length us"
  by (simp add: initial_status_def)

lemma nth_initial_status:
  "k < length us \<Longrightarrow> status (initial_status us ! k) = Pending"
  by (simp add: initial_status_def nth_enumerate_eq)

lemma fork_worker_tasks:
  "urls (fork_worker s) = urls s" "taskStatus (fork_worker s) = taskStatus s"
  "taskQueue (fork_worker s) = taskQueue s" "inProgress (fork_worker s) = inProgress s"
  "timedOutTasks (fork_worker s) = timedOutTasks s"
  "completedTasks (fork_worker s) = completedTasks s"
  "totalProcessedTasks (fork_worker s) = totalProcessedTasks s"
  "pdfInfo (fork_worker s) = pdfInfo s" "timers (fork_worker s) = timers s"
  "consoleUpdateInterval (fork_worker s) = consoleUpdateInterval s"
  "startTimes (fork_worker s) = startTimes s"
  by (simp_all add: fork_worker_def Let_def)

lemma inv_tasks_cong:
  assumes "inv_tasks s"
    and "urls s' = urls s" "taskStatus s' = taskStatus s" "taskQueue s' = taskQueue s"
    and "inProgress s' = inProgress s" "timedOutTasks s' = timedOutTasks s"
    and "completedTasks s' = completedTasks s"
    and "totalProcessedTasks s' = totalProcessedTasks s" "pdfInfo s' = pdfInfo s"
  shows "inv_tasks s'"
  using assms by (simp add: inv_tasks_def assigned_def)

lemma inv_tasks_fork_worker: "inv_tasks s \<Longrightarrow> inv_tasks (fork_worker s)"
  by (erule inv_tasks_cong) (simp_all add: fork_worker_tasks)

lemma inv_tasks_fork_loop: "inv_tasks s \<Longrightarrow> inv_tasks (fork_loop n s)"
  by (induction n arbitrary: s) (simp_all add: inv_tasks_fork_worker)

lemma inv_tasks_init: "inv_tasks (init n us)"
  unfolding init_def
  by (rule inv_tasks_fork_loop)
     (simp add: inv_tasks_def assigned_def length_initial_queue length_initial_status
        nth_initial_status)

lemma inv_tasks_updateConsole: "inv_tasks s \<Longrightarrow> inv_tasks (updateConsole s)"
  by (erule inv_tasks_cong) (simp_all add: updateConsole_def)

lemma inv_tasks_checkCompletion: "inv_tasks s \<Longrightarrow> inv_tasks (checkCompletion s)"
  by (erule inv_tasks_cong) (simp_all add: checkCompletion_def updateConsole_def Let_def)

lemma inv_tasks_onExit: "inv_tasks s \<Longrightarrow> inv_tasks (onExit w s)"
  by (erule inv_tasks_cong) (simp_all add: onExit_def fork_worker_def Let_def)

lemma assignTask_Inr:
  assumes "assignTask w now s = Inr s'"
  obtains (idle) "taskQueue s = []" "s' = s"
  | (sent) t rest where "taskQueue s = t # rest" "index t < length (taskStatus s)"
      "w \<in> set (cluster_workers s)"
      "s' = s\<lparr>taskQueue := rest,
              startTimes := AList.update (index t) now (startTimes s),
              inProgress := insert (index t) (inProgress s),
              taskStatus := (taskStatus s)[index t :=
                 (taskStatus s ! index t)\<lparr>status := InProgress, progress := 10\<rparr>],
              effects := effects s @ [Send w (url t) (index t)],
              timers := timers s @ [(index t, w, TASK_TIMEOUT)]\<rparr>"
  using assms by (auto simp: assignTask_def split: list.splits if_splits)

lemma queue_head:
  assumes "inv_tasks s" "taskQueue s = t # rest"
  shows "assigned s < length (urls s)" "t = \<lparr>url = urls s ! assigned s, index = assigned s\<rparr>"
    "rest = drop (Suc (assigned s)) (initial_queue (urls s))"
proof -
  have q: "taskQueue s = drop (assigned s) (initial_queue (urls s))"
    using assms(1) by (simp add: inv_tasks_def)
  have "length (taskQueue s) \<le> length (urls s)"
    using assms(1) by (simp add: inv_tasks_def)
  then show lt: "assigned s < length (urls s)"
    using assms(2) by (simp add: assigned_def)
  then have "drop (assigned s) (initial_queue (urls s)) =
      initial_queue (urls s) ! assigned s # drop (Suc (assigned s)) (initial_queue (urls s))"
    by (simp add: Cons_nth_drop_Suc length_initial_queue)
  with q assms(2) lt show "t = \<lparr>url = urls s ! assigned s, index = assigned s\<rparr>"
    "rest = drop (Suc (assigned s)) (initial_queue (urls s))"
    by (simp_all add: nth_initial_queue)
qed

lemma inv_tasks_finite: "inv_tasks s \<Longrightarrow> finite (inProgress s)"
  by (auto simp: inv_tasks_def intro: finite_subset [of _ "{i. i < assigned s}"])

lemma inv_tasks_assignTask:
  assumes "inv_tasks s" "assignTask w now s = Inr s'"
  shows "inv_tasks s'"
  using assms(2)
proof (cases rule: assignTask_Inr)
  case idle
  with assms(1) show ?thesis by simp
next
  case (sent t rest)
  let ?k = "assigned s"
  from queue_head [OF assms(1) sent(1)]
  have lt: "?k < length (urls s)" and t: "index t = ?k"
    and rest: "rest = drop (Suc ?k) (initial_queue (urls s))"
    by simp_all
  have len: "length (taskQueue s) \<le> length (urls s)" "length (taskStatus s) = length (urls s)"
    using assms(1) by (simp_all add: inv_tasks_def)
  have a': "assigned s' = Suc ?k"
    using sent(1) lt len by (simp add: sent(4) assigned_def)
  have notin: "?k \<notin> inProgress s"
    using assms(1) by (auto simp: inv_tasks_def)
  have fin: "finite (inProgress s)" by (rule inv_tasks_finite [OF assms(1)])
  have st: "\<forall>i < length (urls s). status (taskStatus s ! i) =
         (if ?k \<le> i then Pending else if i \<in> inProgress s then InProgress else TimedOut)"
    using assms(1) by (simp add: inv_tasks_def)
  have cnt: "timedOutTasks s + card (inProgress s) = ?k" "completedTasks s = 0"
    "totalProcessedTasks s = timedOutTasks s" "pdfInfo s = []"
    "inProgress s \<subseteq> {i. i < ?k}"
    using assms(1) by (simp_all add: inv_tasks_def)
  show ?thesis
    unfolding inv_tasks_def a'
  proof (intro conjI)
    show "\<forall>i<length (urls s'). status (taskStatus s' ! i) =
        (if Suc ?k \<le> i then Pending else if i \<in> inProgress s' then InProgress else TimedOut)"
    proof (intro allI impI)
      fix j assume "j < length (urls s')"
      then have j: "j < length (urls s)" by (simp add: sent(4))
      from st j have "status (taskStatus s ! j) =
         (if ?k \<le> j then Pending else if j \<in> inProgress s then InProgress else TimedOut)"
        by blast
      then show "status (taskStatus s' ! j) =
        (if Suc ?k \<le> j then Pending else if j \<in> inProgress s' then InProgress else TimedOut)"
        using len lt notin j by (auto simp: sent(4) t nth_list_update)
    qed
    show "timedOutTasks s' + card (inProgress s') = Suc ?k"
      using cnt fin notin by (simp add: sent(4) t)
    show "inProgress s' \<subseteq> {i. i < Suc ?k}"
      using cnt by (auto simp: sent(4) t)
  qed (use len cnt rest sent(1) in \<open>simp_all add: sent(4)\<close>)
qed

lemma inv_tasks_mark_timed_out:
  assumes "inv_tasks s" "i \<in> inProgress s"
  shows "inv_tasks (mark_timed_out i s)"
proof -
  let ?k = "assigned s"
  have fin: "finite (inProgress s)" by (rule inv_tasks_finite [OF assms(1)])
  have a': "assigned (mark_timed_out i s) = ?k"
    by (simp add: assigned_def mark_timed_out_def)
  have lt: "i < ?k" using assms by (auto simp: inv_tasks_def)
  have len: "length (taskQueue s) \<le> length (urls s)" "length (taskStatus s) = length (urls s)"
    "taskQueue s = drop ?k (initial_queue (urls s))"
    using assms(1) by (simp_all add: inv_tasks_def)
  have st: "\<forall>j < length (urls s). status (taskStatus s ! j) =
         (if ?k \<le> j then Pending else if j \<in> inProgress s then InProgress else TimedOut)"
    using assms(1) by (simp add: inv_tasks_def)
  have cnt: "timedOutTasks s + card (inProgress s) = ?k" "completedTasks s = 0"
    "totalProcessedTasks s = timedOutTasks s" "pdfInfo s = []"
    "inProgress s \<subseteq> {i. i < ?k}"
    using assms(1) by (simp_all add: inv_tasks_def)
  have pos: "0 < card (inProgress s)"
    using fin assms(2) by (auto simp: card_gt_0_iff)
  show ?thesis
    unfolding inv_tasks_def a'
  proof (intro conjI)
    show "\<forall>j<length (urls (mark_timed_out i s)). status (taskStatus (mark_timed_out i s) ! j) =
        (if ?k \<le> j then Pending
         else if j \<in> inProgress (mark_timed_out i s) then InProgress else TimedOut)"
    proof (intro allI impI)
      fix j assume "j < length (urls (mark_timed_out i s))"
      then have j: "j < length (urls s)" by (simp add: mark_timed_out_def)
      from st j have "status (taskStatus s ! j) =
         (if ?k \<le> j then Pending else if j \<in> inProgress s then InProgress else TimedOut)"
        by blast
      then show "status (taskStatus (mark_timed_out i s) ! j) =
        (if ?k \<le> j then Pending
         else if j \<in> inProgress (mark_timed_out i s) then InProgress else TimedOut)"
        using len(2) lt j by (auto simp: mark_timed_out_def nth_list_update assigned_def)
    qed
    show "timedOutTasks (mark_timed_out i s) + card (inProgress (mark_timed_out i s)) = ?k"
      using cnt fin assms(2) pos by (simp add: mark_timed_out_def)
    show "inProgress (mark_timed_out i s) \<subseteq> {i. i < ?k}"
      using cnt by (auto simp: mark_timed_out_def)
  qed (use len cnt in \<open>simp_all add: mark_timed_out_def\<close>)
qed

lemma inv_tasks_in_range: "inv_tasks s \<Longrightarrow> i \<in> inProgress s \<Longrightarrow> i < length (taskStatus s)"
  by (auto simp: inv_tasks_def assigned_def)

lemma inv_tasks_handle:
  assumes "inv_tasks s" "handle s e = Inr s'"
  shows "inv_tasks s'"
proof (cases e)
  case (WorkerOnline w now)
  have "inv_tasks (s\<lparr>awaiting_online := awaiting_online s - {w}\<rparr>)"
    by (rule inv_tasks_cong [OF assms(1)]) simp_all
  with assms(2) WorkerOnline show ?thesis
    by (auto intro: inv_tasks_assignTask)
next
  case (TimeoutFired i w now)
  let ?s = "s\<lparr>timers := remove1 (i, w, TASK_TIMEOUT) (timers s)\<rparr>"
  have i0: "inv_tasks ?s"
    by (rule inv_tasks_cong [OF assms(1)]) simp_all
  show ?thesis
  proof (cases "i \<in> inProgress s")
    case True
    then have "inv_tasks (checkCompletion (mark_timed_out i ?s))"
      using i0 by (simp add: inv_tasks_checkCompletion inv_tasks_mark_timed_out)
    moreover have "assignTask w now (checkCompletion (mark_timed_out i ?s)) = Inr s'"
      using assms(2) TimeoutFired True by (simp add: timeoutCallback_def split: if_splits)
    ultimately show ?thesis by (rule inv_tasks_assignTask)
  next
    case False
    with assms(2) TimeoutFired i0 show ?thesis by (simp add: timeoutCallback_def)
  qed
next
  case (WorkerExit w)
  have "inv_tasks (s\<lparr>cluster_workers := removeAll w (cluster_workers s),
                      awaiting_online := awaiting_online s - {w}\<rparr>)"
    by (rule inv_tasks_cong [OF assms(1)]) simp_all
  with assms(2) WorkerExit show ?thesis by (auto intro: inv_tasks_onExit)
next
  case (WorkerMessage w m)
  with assms show ?thesis by simp
next
  case IntervalTick
  with assms show ?thesis by (auto intro: inv_tasks_updateConsole)
qed

lemma inv_tasks_status:
  assumes "inv_tasks s" "i < length (taskStatus s)"
  shows "status (taskStatus s ! i) =
     (if assigned s \<le> i then Pending else if i \<in> inProgress s then InProgress else TimedOut)"
  using assms by (simp add: inv_tasks_def)

lemma inv_tasks_all_done:
  assumes "inv_tasks s" "totalProcessedTasks s = length (urls s)"
  shows "taskQueue s = []" "inProgress s = {}"
    "\<forall>i < length (taskStatus s). status (taskStatus s ! i) = TimedOut"
proof -
  have len: "length (taskQueue s) \<le> length (urls s)" "length (taskStatus s) = length (urls s)"
    and cnt: "timedOutTasks s + card (inProgress s) = assigned s"
      "totalProcessedTasks s = timedOutTasks s"
    using assms(1) by (simp_all add: inv_tasks_def)
  have "assigned s \<le> length (urls s)" by (simp add: assigned_def)
  with cnt assms(2) have a: "assigned s = length (urls s)" and c: "card (inProgress s) = 0"
    by simp_all
  from a len have "length (taskQueue s) = 0" unfolding assigned_def by arith
  then show q: "taskQueue s = []" by simp
  from c inv_tasks_finite [OF assms(1)] show e: "inProgress s = {}" by simp
  show "\<forall>i < length (taskStatus s). status (taskStatus s ! i) = TimedOut"
    using inv_tasks_status [OF assms(1)] a e len by simp
qed

lemma work_remains_iff:
  assumes "inv_tasks s"
  shows "(\<exists>i < length (taskStatus s). status (taskStatus s ! i) = Pending
            \<or> status (taskStatus s ! i) = InProgress)
         \<longleftrightarrow> taskQueue s \<noteq> [] \<or> inProgress s \<noteq> {}"
proof
  assume "\<exists>i < length (taskStatus s). status (taskStatus s ! i) = Pending
            \<or> status (taskStatus s ! i) = InProgress"
  then obtain i where i: "i < length (taskStatus s)"
    and st: "status (taskStatus s ! i) = Pending \<or> status (taskStatus s ! i) = InProgress"
    by blast
  have len: "length (taskStatus s) = length (urls s)"
    using assms by (simp add: inv_tasks_def)
  from st inv_tasks_status [OF assms i] have "assigned s \<le> i \<or> i \<in> inProgress s"
    by (auto split: if_splits)
  then show "taskQueue s \<noteq> [] \<or> inProgress s \<noteq> {}"
    using i len by (auto simp: assigned_def)
next
  assume w: "taskQueue s \<noteq> [] \<or> inProgress s \<noteq> {}"
  have len: "length (taskStatus s) = length (urls s)" "length (taskQueue s) \<le> length (urls s)"
    and sub: "inProgress s \<subseteq> {i. i < assigned s}"
    using assms by (simp_all add: inv_tasks_def)
  show "\<exists>i < length (taskStatus s). status (taskStatus s ! i) = Pending
            \<or> status (taskStatus s ! i) = InProgress"
  proof (cases "taskQueue s = []")
    case False
    then have "assigned s < length (taskStatus s)"
      using len by (cases "taskQueue s") (auto simp: assigned_def)
    moreover from this have "status (taskStatus s ! assigned s) = Pending"
      using inv_tasks_status [OF assms, of "assigned s"] by simp
    ultimately show ?thesis by blast
  next
    case True
    with w obtain i where i: "i \<in> inProgress s" by blast
    with sub have "i < assigned s" by blast
    then have "i < length (taskStatus s)" using len by (simp add: assigned_def)
    moreover from this i have "status (taskStatus s ! i) = InProgress"
      using inv_tasks_status [OF assms, of i] \<open>i < assigned s\<close> by simp
    ultimately show ?thesis by blast
  qed
qed

lemma reachable_inv_tasks: "reachable s \<Longrightarrow> inv_tasks s"
  by (induction rule: reachable.induct) (auto intro: inv_tasks_init inv_tasks_handle)

subsection \<open>The workers of the cluster\<close>

lemma inv_workers_cong:
  assumes "inv_workers s"
    and "cluster_workers s' = cluster_workers s" "next_worker_id s' = next_worker_id s"
    and "awaiting_online s' = awaiting_online s"
  shows "inv_workers s'"
  using assms by (simp add: inv_workers_def)

lemma inv_workers_fork_worker: "inv_workers s \<Longrightarrow> inv_workers (fork_worker s)"
  by (auto simp: inv_workers_def fork_worker_def Let_def less_Suc_eq)

lemma inv_workers_fork_loop: "inv_workers s \<Longrightarrow> inv_workers (fork_loop n s)"
  by (induction n arbitrary: s) (simp_all add: inv_workers_fork_worker)

lemma inv_workers_init: "inv_workers (init n us)"
  unfolding init_def by (rule inv_workers_fork_loop) (simp add: inv_workers_def)

lemma inv_workers_assignTask:
  "inv_workers s \<Longrightarrow> assignTask w now s = Inr s' \<Longrightarrow> inv_workers s'"
  by (erule assignTask_Inr) (auto simp: inv_workers_def)

lemma inv_workers_checkCompletion: "inv_workers s \<Longrightarrow> inv_workers (checkCompletion s)"
  by (erule inv_workers_cong) (simp_all add: checkCompletion_def updateConsole_def Let_def)

lemma inv_workers_exit:
  assumes "inv_workers s"
  shows "inv_workers (onExit w (s\<lparr>cluster_workers := removeAll w (cluster_workers s),
                      awaiting_online := awaiting_online s - {w}\<rparr>))"
proof -
  let ?s = "s\<lparr>cluster_workers := removeAll w (cluster_workers s),
              awaiting_online := awaiting_online s - {w}\<rparr>"
  have a: "inv_workers ?s"
    using assms by (auto simp: inv_workers_def distinct_removeAll)
  have b: "inv_workers (?s\<lparr>effects := effects ?s @ [Print (WorkerExitedLine w)],
                 workerStatus := AList.delete w (workerStatus ?s)\<rparr>)"
    by (rule inv_workers_cong [OF a]) simp_all
  have c: "inv_workers (?s\<lparr>effects := effects ?s @ [Print (WorkerExitedLine w)],
                 workerStatus := AList.delete w (workerStatus ?s),
                 effects := effects ?s @ [Print (WorkerExitedLine w)] @ [Print StartingNewWorkerLine]\<rparr>)"
    by (rule inv_workers_cong [OF a]) simp_all
  show ?thesis
    unfolding onExit_def Let_def
    using b inv_workers_fork_worker [OF c] by (simp split: if_splits)
qed

lemma inv_workers_handle:
  assumes "inv_workers s" "handle s e = Inr s'"
  shows "inv_workers s'"
proof (cases e)
  case (WorkerOnline w now)
  have "inv_workers (s\<lparr>awaiting_online := awaiting_online s - {w}\<rparr>)"
    using assms(1) by (auto simp: inv_workers_def)
  with assms(2) WorkerOnline show ?thesis
    by (auto intro: inv_workers_assignTask)
next
  case (TimeoutFired i w now)
  let ?s = "s\<lparr>timers := remove1 (i, w, TASK_TIMEOUT) (timers s)\<rparr>"
  have "inv_workers (mark_timed_out i ?s)"
    by (rule inv_workers_cong [OF assms(1)]) (simp_all add: mark_timed_out_def)
  then have c: "inv_workers (checkCompletion (mark_timed_out i ?s))"
    by (rule inv_workers_checkCompletion)
  have "inv_workers ?s"
    by (rule inv_workers_cong [OF assms(1)]) simp_all
  with c assms(2) TimeoutFired show ?thesis
    by (auto simp: timeoutCallback_def split: if_splits intro: inv_workers_assignTask)
next
  case (WorkerExit w)
  with assms show ?thesis by (auto intro: inv_workers_exit)
next
  case (WorkerMessage w m)
  with assms show ?thesis by simp
next
  case IntervalTick
  with assms show ?thesis by (auto simp: updateConsole_def intro: inv_workers_cong)
qed

lemma reachable_inv_workers: "reachable s \<Longrightarrow> inv_workers s"
  by (induction rule: reachable.induct) (auto intro: inv_workers_init inv_workers_handle)

subsection \<open>The effects of the shutdown\<close>

lemma console_lines_quiet: "filter shutdown_effect (map Print (console_lines s)) = []"
  by (simp add: console_lines_def filter_empty_conv split_def) 

lemma inv_shutdown_quiet:
  assumes "inv_shutdown s"
    and "effects s' = effects s @ xs" "filter shutdown_effect xs = []"
    and "urls s' = urls s" "totalProcessedTasks s \<le> totalProcessedTasks s'"
  shows "inv_shutdown s'"
  using assms by (auto simp: inv_shutdown_def)

lemma inv_shutdown_fork_worker: "inv_shutdown s \<Longrightarrow> inv_shutdown (fork_worker s)"
  by (erule inv_shutdown_quiet [where xs = "[Fork (next_worker_id s)]"])
     (simp_all add: fork_worker_def Let_def)

lemma inv_shutdown_fork_loop: "inv_shutdown s \<Longrightarrow> inv_shutdown (fork_loop n s)"
  by (induction n arbitrary: s) (simp_all add: inv_shutdown_fork_worker)

lemma inv_shutdown_init: "inv_shutdown (init n us)"
  unfolding init_def by (rule inv_shutdown_fork_loop) (simp add: inv_shutdown_def)

lemma inv_shutdown_updateConsole: "inv_shutdown s \<Longrightarrow> inv_shutdown (updateConsole s)"
  by (erule inv_shutdown_quiet [where xs = "map Print (console_lines s)"])
     (simp_all add: updateConsole_def console_lines_quiet)

lemma inv_shutdown_assignTask:
  "inv_shutdown s \<Longrightarrow> assignTask w now s = Inr s' \<Longrightarrow> inv_shutdown s'"
  by (erule assignTask_Inr) (auto elim: inv_shutdown_quiet)

lemma inv_shutdown_onExit: "inv_shutdown s \<Longrightarrow> inv_shutdown (onExit w s)"
  by (erule inv_shutdown_quiet [where xs = "if taskQueue s \<noteq> [] \<or> inProgress s \<noteq> {}
        then [Print (WorkerExitedLine w), Print StartingNewWorkerLine, Fork (next_worker_id s)]
        else [Print (WorkerExitedLine w)]"])
     (simp_all add: onExit_def fork_worker_def Let_def)

lemma inv_shutdown_timeout:
  assumes "inv_shutdown s" "distinct (cluster_workers s)"
  shows "inv_shutdown (checkCompletion (mark_timed_out i s))"
proof (cases "totalProcessedTasks s + 1 = length (urls s)")
  case True
  then have none: "filter shutdown_effect (effects s) = []"
    using assms(1) by (auto simp: inv_shutdown_def)
  have "filter shutdown_effect (effects (checkCompletion (mark_timed_out i s))) =
      shutdown_block (length (urls s)) (completedTasks s) (timedOutTasks s + 1) (cluster_workers s)"
    using True none
    by (simp add: checkCompletion_def mark_timed_out_def updateConsole_def Let_def
        console_lines_quiet shutdown_block_def filter_empty_conv)
  moreover have "urls (checkCompletion (mark_timed_out i s)) = urls s"
    "totalProcessedTasks (checkCompletion (mark_timed_out i s)) = totalProcessedTasks s + 1"
    by (simp_all add: checkCompletion_def mark_timed_out_def updateConsole_def Let_def)
  ultimately show ?thesis
    using True assms(2) unfolding inv_shutdown_def by (intro disjI2) auto
next
  case False
  then have "checkCompletion (mark_timed_out i s) = mark_timed_out i s"
    by (simp add: checkCompletion_def mark_timed_out_def)
  moreover have "inv_shutdown (mark_timed_out i s)"
    by (rule inv_shutdown_quiet [OF assms(1), where xs = "[Print (TaskTimedOutLine (i + 1))]"])
       (simp_all add: mark_timed_out_def)
  ultimately show ?thesis by simp
qed

lemma inv_shutdown_handle:
  assumes "inv_shutdown s" "inv_workers s" "handle s e = Inr s'"
  shows "inv_shutdown s'"
proof (cases e)
  case (WorkerOnline w now)
  have "inv_shutdown (s\<lparr>awaiting_online := awaiting_online s - {w}\<rparr>)"
    by (rule inv_shutdown_quiet [OF assms(1), where xs = "[]"]) simp_all
  with assms(3) WorkerOnline show ?thesis
    by (auto intro: inv_shutdown_assignTask)
next
  case (TimeoutFired i w now)
  let ?s = "s\<lparr>timers := remove1 (i, w, TASK_TIMEOUT) (timers s)\<rparr>"
  have q: "inv_shutdown ?s"
    by (rule inv_shutdown_quiet [OF assms(1), where xs = "[]"]) simp_all
  have "distinct (cluster_workers ?s)"
    using assms(2) by (simp add: inv_workers_def)
  with q have "inv_shutdown (checkCompletion (mark_timed_out i ?s))"
    by (rule inv_shutdown_timeout)
  with q assms(3) TimeoutFired show ?thesis
    by (auto simp: timeoutCallback_def split: if_splits intro: inv_shutdown_assignTask)
next
  case (WorkerExit w)
  have "inv_shutdown (s\<lparr>cluster_workers := removeAll w (cluster_workers s),
                      awaiting_online := awaiting_online s - {w}\<rparr>)"
    by (rule inv_shutdown_quiet [OF assms(1), where xs = "[]"]) simp_all
  with assms(3) WorkerExit show ?thesis by (auto intro: inv_shutdown_onExit)
next
  case (WorkerMessage w m)
  with assms show ?thesis by simp
next
  case IntervalTick
  with assms show ?thesis by (auto intro: inv_shutdown_updateConsole)
qed

lemma reachable_inv_shutdown: "reachable s \<Longrightarrow> inv_shutdown s"
  by (induction rule: reachable.induct)
     (auto intro: inv_shutdown_init inv_shutdown_handle reachable_inv_workers)

subsection \<open>Runs\<close>

lemma run_reachable: "reachable s \<Longrightarrow> run s es = Some (Inr s') \<Longrightarrow> reachable s'"
proof (induction es arbitrary: s)
  case Nil
  then show ?case by simp
next
  case (Cons e es)
  from Cons.prems(2) obtain s1 where e: "enabled s e" and h: "handle s e = Inr s1"
    and r: "run s1 es = Some (Inr s')"
    by (auto split: if_splits sum.splits)
  from Cons.prems(1) e h have "reachable s1" by (rule reachable.turn)
  then show ?case using r by (rule Cons.IH)
qed

lemmas step_defs = init_def initial_queue_def initial_status_def fork_worker_def assignTask_def
  onExit_def timeoutCallback_def mark_timed_out_def checkCompletion_def updateConsole_def
  console_lines_def TASK_TIMEOUT_def enumerate_eq_zip

text \<open>Four runs that the examples below start from, evaluated: one url, until its task
  is assigned and until its timer has fired; two urls, until the first task is assigned
  and until its timer has fired and a late message and the second timer follow.\<close>

lemma run_one_assigned:
  "\<exists>s. run (init 1 [''u'']) [WorkerOnline 1 0] = Some (Inr s)
     \<and> enabled s (TimeoutFired 0 1 300000) \<and> 0 \<in> inProgress s
     \<and> totalProcessedTasks s + 1 = length (urls s)
     \<and> cluster_workers s = [1] \<and> taskQueue s = [] \<and> length (taskStatus s) = 1
     \<and> status (taskStatus s ! 0) = InProgress \<and> timedOutTasks s = 0
     \<and> next_worker_id s = 2 \<and> inProgress s = {0}"
  by (simp add: step_defs)

lemma run_two_assigned:
  "\<exists>s. run (init 1 [''a'', ''b'']) [WorkerOnline 1 0] = Some (Inr s)
     \<and> enabled s (WorkerExit 1) \<and> length (taskStatus s) = 2
     \<and> status (taskStatus s ! 1) = Pending \<and> cluster_workers s = [1]
     \<and> next_worker_id s = 2 \<and> taskQueue s = [\<lparr>url = ''b'', index = 1\<rparr>]
     \<and> enabled s (TimeoutFired 0 1 300000) \<and> 0 \<in> inProgress s"
  by (simp add: step_defs)

lemma run_all_timed_out:
  "\<exists>s. run (init 1 [''u'']) [WorkerOnline 1 0, TimeoutFired 0 1 300000] = Some (Inr s)
     \<and> enabled s (WorkerExit 1) \<and> length (taskStatus s) = 1
     \<and> status (taskStatus s ! 0) = TimedOut \<and> cluster_workers s = [1]
     \<and> progress (taskStatus s ! 0) = 0 \<and> timedOutTasks s = 1
     \<and> totalProcessedTasks s = length (urls s)"
  by (simp add: step_defs)

lemma run_shutdown:
  "\<exists>s. run (init 1 [''u'']) [WorkerOnline 1 0, TimeoutFired 0 1 300000] = Some (Inr s)
     \<and> filter shutdown_effect (effects s) = shutdown_block 1 0 1 [1]"
  by (simp add: step_defs shutdown_block_def)

lemma run_late_completed:
  "\<exists>s. run (init 1 [''a'', ''b'']) [WorkerOnline 1 0, TimeoutFired 0 1 300000] = Some (Inr s)
     \<and> length (taskStatus s) = 2 \<and> status (taskStatus s ! 0) = TimedOut
     \<and> timedOutTasks s = 1
     \<and> (\<exists>s'. run s [WorkerMessage 1 (CompletedMsg 0 1 ''1102-01.pdf''),
                      TimeoutFired 1 1 600000] = Some (Inr s')
            \<and> timedOutTasks s' = 2)"
  by (simp add: step_defs)

subsection \<open>The start of the master\<close>

lemma fork_loop_workers:
  "cluster_workers (fork_loop n s) = cluster_workers s @ [next_worker_id s ..< next_worker_id s + n]
   \<and> next_worker_id (fork_loop n s) = next_worker_id s + n
   \<and> effects (fork_loop n s) = effects s @ map Fork [next_worker_id s ..< next_worker_id s + n]"
proof (induction n arbitrary: s)
  case 0
  then show ?case by simp
next
  case (Suc n)
  have w: "cluster_workers (fork_worker s) = cluster_workers s @ [next_worker_id s]"
    "next_worker_id (fork_worker s) = Suc (next_worker_id s)"
    "effects (fork_worker s) = effects s @ [Fork (next_worker_id s)]"
    by (simp_all add: fork_worker_def Let_def)
  show ?case
    by (simp add: Suc.IH w upt_conv_Cons del: upt_Suc)
qed

text \<open>
  C7, as the code has it. The loop at the start forks once per CPU, whatever the number
  of urls: the workers are those with the ids 1 to \<open>numCPUs\<close>, and the master has
  done nothing else but to print its first line.
\<close>

theorem initial_fork_count: "cluster_workers (init numCPUs us) = [1 ..< Suc numCPUs]
   \<and> length (cluster_workers (init numCPUs us)) = numCPUs
   \<and> effects (init numCPUs us) = Print MasterRunningLine # map Fork [1 ..< Suc numCPUs]"
  by (simp add: init_def fork_loop_workers)

text \<open>C7 as the specification states it fails: with four CPUs and one url the master
  forks four workers, and the minimum of the bound and the number of pending jobs is one.\<close>

theorem initial_fork_not_min: "length (cluster_workers (init 4 [''u''])) = 4
   \<and> min 4 (length (taskQueue (init 4 [''u'']))) = 1"
  by (simp add: step_defs eval_nat_numeral)

subsection \<open>Messages of the workers\<close>

text \<open>
  C1, evaluated on the code. One url and one CPU: worker 1 comes online and gets task 0.
  Its message \<^verbatim>\<open>{type:'completed', index:0, workerId:1, fileName:'1102-01.pdf'}\<close> arrives
  while the task is in progress, and the master's state is the same afterwards: the task
  is still in progress, no counter has moved, no artifact is recorded and the timer of the
  task is still armed.
\<close>

theorem completed_message_ignored: "\<exists>s. run (init 1 [''u'']) [WorkerOnline 1 0] = Some (Inr s)
    \<and> status (taskStatus s ! 0) = InProgress
    \<and> enabled s (WorkerMessage 1 (CompletedMsg 0 1 ''1102-01.pdf''))
    \<and> handle s (WorkerMessage 1 (CompletedMsg 0 1 ''1102-01.pdf'')) = Inr s
    \<and> completedTasks s = 0 \<and> totalProcessedTasks s = 0 \<and> pdfInfo s = []
    \<and> (0, 1, TASK_TIMEOUT) \<in> set (timers s)"
  by (simp add: step_defs)

subsection \<open>A timer that outlives its worker\<close>

text \<open>
  C10. There is a state of a run in which the timer of a task fires after the worker that
  the timer's closure captured has exited, while the queue is not empty: the closure calls
  \<^verbatim>\<open>assignTask\<close> with the id of that worker, and \<^verbatim>\<open>cluster.workers[workerId].send\<close> is
  a TypeError. The run: one CPU, two urls; worker 1 comes online, gets task 0 and exits;
  the timer of task 0 fires.
\<close>

theorem timeout_reassign_missing_worker: "\<exists>s i w now. reachable s \<and> enabled s (TimeoutFired i w now) \<and> i \<in> inProgress s
    \<and> w \<notin> set (cluster_workers s) \<and> taskQueue s \<noteq> []
    \<and> handle s (TimeoutFired i w now) = Inl TypeError"
proof -
  have "\<exists>s. run (init 1 [''a'', ''b'']) [WorkerOnline 1 0, WorkerExit 1] = Some (Inr s)
      \<and> enabled s (TimeoutFired 0 1 300000) \<and> 0 \<in> inProgress s
      \<and> 1 \<notin> set (cluster_workers s) \<and> taskQueue s \<noteq> []
      \<and> handle s (TimeoutFired 0 1 300000) = Inl TypeError"
    by (simp add: step_defs)
  then obtain s where r: "run (init 1 [''a'', ''b'']) [WorkerOnline 1 0, WorkerExit 1] = Some (Inr s)"
    and p: "enabled s (TimeoutFired 0 1 300000)" "0 \<in> inProgress s"
      "1 \<notin> set (cluster_workers s)" "taskQueue s \<noteq> []"
      "handle s (TimeoutFired 0 1 300000) = Inl TypeError"
    by blast
  have "reachable s" by (rule run_reachable [OF reachable.start r])
  with p show ?thesis by blast
qed

subsection \<open>The file name\<close>

lemma String_nat_small: "n < 10 \<Longrightarrow> String_nat n = [digit_char n]"
  by (simp add: String_nat.simps)

lemma String_nat_two: "10 \<le> n \<Longrightarrow> n < 100 \<Longrightarrow> String_nat n = two_digits n"
  by (subst String_nat.simps) (simp add: String_nat_small two_digits_def)

lemma length_String_nat: "10 \<le> n \<Longrightarrow> 2 \<le> length (String_nat n)"
  by (subst String_nat.simps) (simp add: Suc_le_eq, subst String_nat.simps, simp)

lemma digit_char_0: "digit_char 0 = CHR ''0''"
  by (simp add: digit_char_def)

lemma pad_two: "n < 100 \<Longrightarrow> padStart 2 (CHR ''0'') (String_nat n) = two_digits n"
  by (cases "n < 10")
     (simp_all add: padStart_def String_nat_small String_nat_two two_digits_def digit_char_0)

lemma pad_large: "10 \<le> n \<Longrightarrow> padStart 2 (CHR ''0'') (String_nat n) = String_nat n"
  using length_String_nat [of n] by (simp add: padStart_def)

text \<open>
  C9. The name is a function of the date and the index only. For every date (the month of
  \<^verbatim>\<open>getMonth()\<close> is below 12, the day at most 31) it is the month, counted from 1, and the
  day with two digits each, a hyphen, the index plus one padded to two digits, and
  \<^verbatim>\<open>.pdf\<close>. Padding adds a zero to a number below 10 and leaves a longer number as it
  is, so from index 99 on the number has more than two digits.
\<close>

theorem fileName_format:
  assumes "getMonth d < 12" and "getDate d \<le> 31"
  shows "fileName d idx =
     two_digits (getMonth d + 1) @ two_digits (getDate d) @ ''-''
     @ (if idx < 99 then two_digits (idx + 1) else String_nat (idx + 1)) @ ''.pdf''"
  using assms by (simp add: fileName_def Let_def pad_two pad_large)

theorem fileName_format_witness:
  "fileName \<lparr>getMonth = 10, getDate = 2\<rparr> 0 = ''1102-01.pdf''
   \<and> fileName \<lparr>getMonth = 10, getDate = 2\<rparr> 99 = ''1102-100.pdf''"
  using fileName_format [of "\<lparr>getMonth = 10, getDate = 2\<rparr>" 0] fileName_format [of "\<lparr>getMonth = 10, getDate = 2\<rparr>" 99]
  by (simp add: two_digits_def digit_char_def String_nat.simps)

subsection \<open>The completion check\<close>

lemma checkCompletion_fires:
  assumes "totalProcessedTasks x = length (urls x)"
  shows "\<not> consoleUpdateInterval (checkCompletion x)"
    "effects (checkCompletion x) = effects x @ map Print (console_lines x)
        @ shutdown_block (length (urls x)) (completedTasks x) (timedOutTasks x) (cluster_workers x)"
    "taskStatus (checkCompletion x) = taskStatus x"
    "taskQueue (checkCompletion x) = taskQueue x"
  using assms
  by (simp_all add: checkCompletion_def updateConsole_def console_lines_def Let_def
      shutdown_block_def)

text \<open>
  C3. \<^verbatim>\<open>checkCompletion\<close> changes nothing unless the processed count equals the number of
  urls, and then it clears the interval, prints the table and the final counts and kills
  every worker in \<^verbatim>\<open>cluster.workers\<close>, with no condition on what the worker is doing. In
  every state of a run the processed count is the sum of the completed and the timed-out
  counts, and when it equals the number of urls the queue and the set \<^verbatim>\<open>inProgress\<close> are
  empty and no task is pending or in progress. The check is called from the timer's
  closure: when the closure counts the last task, the state after it is the one that the
  check returns, with the interval cleared and a kill for every worker.
\<close>

theorem completion_check:
  "(totalProcessedTasks x \<noteq> length (urls x) \<longrightarrow> checkCompletion x = x)
   \<and> (totalProcessedTasks x = length (urls x) \<longrightarrow>
        \<not> consoleUpdateInterval (checkCompletion x)
      \<and> effects (checkCompletion x) = effects x @ map Print (console_lines x)
          @ [Print AllTasksCompleted, Print (TotalTasksLine (length (urls x))),
             Print (SuccessfullyCompletedLine (completedTasks x)),
             Print (TimedOutTasksLine (timedOutTasks x)), Print ShuttingDownLine]
          @ map Kill (cluster_workers x))
   \<and> (reachable s \<longrightarrow>
        totalProcessedTasks s = completedTasks s + timedOutTasks s
      \<and> (totalProcessedTasks s = length (urls s) \<longrightarrow>
            taskQueue s = [] \<and> inProgress s = {}
          \<and> (\<forall>j < length (taskStatus s). status (taskStatus s ! j) \<noteq> Pending
                \<and> status (taskStatus s ! j) \<noteq> InProgress)))
   \<and> (reachable s \<and> enabled s (TimeoutFired i w now) \<and> i \<in> inProgress s
        \<and> totalProcessedTasks s + 1 = length (urls s) \<longrightarrow>
        (\<exists>s'. handle s (TimeoutFired i w now) = Inr s'
           \<and> s' = checkCompletion (mark_timed_out i
                    (s\<lparr>timers := remove1 (i, w, TASK_TIMEOUT) (timers s)\<rparr>))
           \<and> totalProcessedTasks s' = length (urls s')
           \<and> \<not> consoleUpdateInterval s'
           \<and> (\<forall>j < length (taskStatus s'). status (taskStatus s' ! j) \<noteq> Pending
                \<and> status (taskStatus s' ! j) \<noteq> InProgress)
           \<and> (\<forall>v \<in> set (cluster_workers s'). Kill v \<in> set (effects s'))))"
proof (intro conjI impI)
  show "totalProcessedTasks x \<noteq> length (urls x) \<Longrightarrow> checkCompletion x = x"
    by (simp add: checkCompletion_def)
next
  assume "totalProcessedTasks x = length (urls x)"
  from checkCompletion_fires [OF this]
  show "\<not> consoleUpdateInterval (checkCompletion x)"
    and "effects (checkCompletion x) = effects x @ map Print (console_lines x)
          @ [Print AllTasksCompleted, Print (TotalTasksLine (length (urls x))),
             Print (SuccessfullyCompletedLine (completedTasks x)),
             Print (TimedOutTasksLine (timedOutTasks x)), Print ShuttingDownLine]
          @ map Kill (cluster_workers x)"
    by (simp_all add: shutdown_block_def)
next
  assume "reachable s"
  then have inv: "inv_tasks s" by (rule reachable_inv_tasks)
  then show "totalProcessedTasks s = completedTasks s + timedOutTasks s"
    by (simp add: inv_tasks_def)
  assume "totalProcessedTasks s = length (urls s)"
  from inv_tasks_all_done [OF inv this]
  show "taskQueue s = []" "inProgress s = {}"
    "\<forall>j < length (taskStatus s). status (taskStatus s ! j) \<noteq> Pending
        \<and> status (taskStatus s ! j) \<noteq> InProgress"
    by simp_all
next
  assume a: "reachable s \<and> enabled s (TimeoutFired i w now) \<and> i \<in> inProgress s
        \<and> totalProcessedTasks s + 1 = length (urls s)"
  let ?m = "mark_timed_out i (s\<lparr>timers := remove1 (i, w, TASK_TIMEOUT) (timers s)\<rparr>)"
  let ?c = "checkCompletion ?m"
  from a have inv: "inv_tasks s" by (simp add: reachable_inv_tasks)
  have "inv_tasks (s\<lparr>timers := remove1 (i, w, TASK_TIMEOUT) (timers s)\<rparr>)"
    by (rule inv_tasks_cong [OF inv]) simp_all
  with a have im: "inv_tasks ?m" by (simp add: inv_tasks_mark_timed_out)
  have tp: "totalProcessedTasks ?m = length (urls ?m)"
    using a by (simp add: mark_timed_out_def)
  note alld = inv_tasks_all_done [OF im tp]
  note fires = checkCompletion_fires [OF tp]
  have ic: "inv_tasks ?c" using im by (rule inv_tasks_checkCompletion)
  have tpc: "totalProcessedTasks ?c = length (urls ?c)"
    using tp by (simp add: checkCompletion_def updateConsole_def Let_def)
  have h: "handle s (TimeoutFired i w now) = Inr ?c"
    using a alld(1) fires(4) inv_tasks_in_range [OF inv, of i]
    by (simp add: timeoutCallback_def assignTask_def)
  have kills: "\<forall>v \<in> set (cluster_workers ?c). Kill v \<in> set (effects ?c)"
    using tp by (simp add: fires(2) shutdown_block_def checkCompletion_def updateConsole_def
        Let_def)
  show "\<exists>s'. handle s (TimeoutFired i w now) = Inr s' \<and> s' = ?c
           \<and> totalProcessedTasks s' = length (urls s')
           \<and> \<not> consoleUpdateInterval s'
           \<and> (\<forall>j < length (taskStatus s'). status (taskStatus s' ! j) \<noteq> Pending
                \<and> status (taskStatus s' ! j) \<noteq> InProgress)
           \<and> (\<forall>v \<in> set (cluster_workers s'). Kill v \<in> set (effects s'))"
    using h tpc fires(1) kills inv_tasks_all_done(3) [OF ic tpc] by simp
qed

theorem completion_check_witness:
  "checkCompletion (init 1 [''u'']) = init 1 [''u'']
   \<and> (\<exists>s s'. run (init 1 [''u'']) [WorkerOnline 1 0] = Some (Inr s) \<and> reachable s
         \<and> handle s (TimeoutFired 0 1 300000) = Inr s'
         \<and> totalProcessedTasks s' = length (urls s')
         \<and> \<not> consoleUpdateInterval s'
         \<and> status (taskStatus s' ! 0) \<noteq> InProgress
         \<and> Kill 1 \<in> set (effects s'))
   \<and> (\<exists>u. run (init 1 [''u'']) [WorkerOnline 1 0, TimeoutFired 0 1 300000] = Some (Inr u)
         \<and> reachable u \<and> totalProcessedTasks u = length (urls u)
         \<and> totalProcessedTasks u = completedTasks u + timedOutTasks u
         \<and> taskQueue u = [] \<and> inProgress u = {}
         \<and> \<not> consoleUpdateInterval (checkCompletion u))"
proof -
  have n: "totalProcessedTasks (init 1 [''u'']) \<noteq> length (urls (init 1 [''u'']))"
    by (simp add: step_defs)
  obtain s where r: "run (init 1 [''u'']) [WorkerOnline 1 0] = Some (Inr s)"
    and e: "enabled s (TimeoutFired 0 1 300000)" "0 \<in> inProgress s"
      "totalProcessedTasks s + 1 = length (urls s)"
    and f: "cluster_workers s = [1]" "length (taskStatus s) = 1"
    using run_one_assigned by blast
  have reach: "reachable s" by (rule run_reachable [OF reachable.start r])
  note c = completion_check [of "init 1 [''u'']" s 0 1 300000]
  from c n have first: "checkCompletion (init 1 [''u'']) = init 1 [''u'']" by blast
  from c reach e obtain s' where h: "handle s (TimeoutFired 0 1 300000) = Inr s'"
    and s': "s' = checkCompletion (mark_timed_out 0
                    (s\<lparr>timers := remove1 (0, 1, TASK_TIMEOUT) (timers s)\<rparr>))"
    and p: "totalProcessedTasks s' = length (urls s')" "\<not> consoleUpdateInterval s'"
      "\<forall>j < length (taskStatus s'). status (taskStatus s' ! j) \<noteq> Pending
                \<and> status (taskStatus s' ! j) \<noteq> InProgress"
      "\<forall>v \<in> set (cluster_workers s'). Kill v \<in> set (effects s')"
    by blast
  have "cluster_workers s' = [1]" "length (taskStatus s') = 1"
    using f by (simp_all add: s' checkCompletion_def updateConsole_def mark_timed_out_def Let_def)
  with p have "status (taskStatus s' ! 0) \<noteq> InProgress" "Kill 1 \<in> set (effects s')"
    by simp_all
  with r reach h p(1,2) have second: "\<exists>s s'. run (init 1 [''u'']) [WorkerOnline 1 0] = Some (Inr s)
         \<and> reachable s
         \<and> handle s (TimeoutFired 0 1 300000) = Inr s'
         \<and> totalProcessedTasks s' = length (urls s')
         \<and> \<not> consoleUpdateInterval s'
         \<and> status (taskStatus s' ! 0) \<noteq> InProgress
         \<and> Kill 1 \<in> set (effects s')"
    by blast
  obtain u where ru: "run (init 1 [''u'']) [WorkerOnline 1 0, TimeoutFired 0 1 300000] = Some (Inr u)"
    and tu: "totalProcessedTasks u = length (urls u)"
    using run_all_timed_out by blast
  have reachu: "reachable u" by (rule run_reachable [OF reachable.start ru])
  from completion_check [of u u 0 1 300000] reachu tu
  have "totalProcessedTasks u = completedTasks u + timedOutTasks u"
    "taskQueue u = []" "inProgress u = {}" "\<not> consoleUpdateInterval (checkCompletion u)"
    by blast+
  with ru reachu tu have "\<exists>u. run (init 1 [''u'']) [WorkerOnline 1 0, TimeoutFired 0 1 300000]
           = Some (Inr u)
         \<and> reachable u \<and> totalProcessedTasks u = length (urls u)
         \<and> totalProcessedTasks u = completedTasks u + timedOutTasks u
         \<and> taskQueue u = [] \<and> inProgress u = {}
         \<and> \<not> consoleUpdateInterval (checkCompletion u)"
    by blast
  with first second show ?thesis by blast
qed

subsection \<open>One shutdown per run\<close>

lemma count_list_filter: "P a \<Longrightarrow> count_list (filter P xs) a = count_list xs a"
  by (induction xs) auto

lemma count_list_map_Kill: "count_list (map Kill ws) (Kill w) = count_list ws w"
  by (induction ws) auto

lemma count_list_distinct: "distinct ws \<Longrightarrow> count_list ws w \<le> Suc 0"
  by (induction ws) auto

lemma count_list_map_Kill_Print: "count_list (map Kill ws) (Print l) = 0"
  by (induction ws) auto

text \<open>
  C4, as the code has it. \<^verbatim>\<open>checkCompletion\<close> has no guard of its own, but its only call is
  in the timer's closure, right after \<^verbatim>\<open>totalProcessedTasks++\<close>, so in a run it meets the
  equality at most once: the final counts are printed at most once and no worker is killed
  twice, and what a run has of these effects is one shutdown block for the workers then in
  \<^verbatim>\<open>cluster.workers\<close>.
\<close>

theorem shutdown_at_most_once:
  assumes "reachable s"
  shows "count_list (effects s) (Print AllTasksCompleted) \<le> 1
       \<and> count_list (effects s) (Print ShuttingDownLine) \<le> 1
       \<and> (\<forall>w. count_list (effects s) (Kill w) \<le> 1)
       \<and> (filter shutdown_effect (effects s) = []
          \<or> (\<exists>c t ws. distinct ws \<and> filter shutdown_effect (effects s) =
                shutdown_block (length (urls s)) c t ws))"
proof -
  have inv: "inv_shutdown s" using assms by (rule reachable_inv_shutdown)
  have a: "count_list (effects s) (Print AllTasksCompleted) =
      count_list (filter shutdown_effect (effects s)) (Print AllTasksCompleted)"
    by (simp add: count_list_filter)
  have b: "count_list (effects s) (Print ShuttingDownLine) =
      count_list (filter shutdown_effect (effects s)) (Print ShuttingDownLine)"
    by (simp add: count_list_filter)
  have c: "count_list (effects s) (Kill w) =
      count_list (filter shutdown_effect (effects s)) (Kill w)" for w
    by (simp add: count_list_filter)
  from inv show ?thesis
    unfolding a b c inv_shutdown_def
    by (auto simp: shutdown_block_def count_list_map_Kill count_list_distinct
        count_list_map_Kill_Print)
qed

theorem shutdown_at_most_once_witness:
  "\<exists>s. run (init 1 [''u'']) [WorkerOnline 1 0, TimeoutFired 0 1 300000] = Some (Inr s)
     \<and> reachable s
     \<and> count_list (effects s) (Print AllTasksCompleted) = 1
     \<and> count_list (effects s) (Kill 1) = 1"
proof -
  obtain s where r: "run (init 1 [''u'']) [WorkerOnline 1 0, TimeoutFired 0 1 300000] = Some (Inr s)"
    and f: "filter shutdown_effect (effects s) = shutdown_block 1 0 1 [1]"
    using run_shutdown by blast
  have reach: "reachable s" by (rule run_reachable [OF reachable.start r])
  have "count_list (effects s) (Print AllTasksCompleted) =
      count_list (filter shutdown_effect (effects s)) (Print AllTasksCompleted)"
    "count_list (effects s) (Kill 1) = count_list (filter shutdown_effect (effects s)) (Kill 1)"
    by (simp_all add: count_list_filter)
  then have "1 \<le> count_list (effects s) (Print AllTasksCompleted)"
    "1 \<le> count_list (effects s) (Kill 1)"
    by (simp_all add: f shutdown_block_def)
  with shutdown_at_most_once [OF reach] r reach show ?thesis
    by (intro exI [of _ s]) (auto simp: le_antisym)
qed

text \<open>
  C4 as the specification states it fails. In the state that the run of one url ends in,
  the processed count equals the number of urls and the shutdown has run once; calling
  \<^verbatim>\<open>checkCompletion\<close> there again prints the final counts a second time and kills worker 1
  a second time.
\<close>

theorem checkCompletion_not_idempotent:
  "totalProcessedTasks (state_of (run (init 1 [''u'']) [WorkerOnline 1 0, TimeoutFired 0 1 300000]))
     = length (urls (state_of (run (init 1 [''u'']) [WorkerOnline 1 0, TimeoutFired 0 1 300000])))
   \<and> count_list (effects (checkCompletion (state_of
        (run (init 1 [''u'']) [WorkerOnline 1 0, TimeoutFired 0 1 300000])))) (Kill 1) = 2
   \<and> count_list (effects (checkCompletion (state_of
        (run (init 1 [''u'']) [WorkerOnline 1 0, TimeoutFired 0 1 300000]))))
        (Print AllTasksCompleted) = 2"
  by (simp add: step_defs state_of_def)

subsection \<open>The exit of a worker\<close>

lemma fork_worker_fresh:
  assumes "inv_workers s"
  shows "next_worker_id s \<notin> set (cluster_workers s)"
  using assms by (auto simp: inv_workers_def)

text \<open>
  C8. When a worker exits, its entries in \<^verbatim>\<open>cluster.workers\<close> and \<^verbatim>\<open>workerStatus\<close> are gone.
  If a task is pending or in progress, the listener forks one worker: it has a new id, it
  is entered as idle, and when it comes online \<^verbatim>\<open>assignTask\<close> is called with its id. If no
  task is pending or in progress, the listener only prints that the worker has exited.
\<close>

theorem worker_exit:
  assumes "reachable s" and "enabled s (WorkerExit w)"
  shows "\<exists>s'. handle s (WorkerExit w) = Inr s'
     \<and> w \<notin> set (cluster_workers s') \<and> map_of (workerStatus s') w = None
     \<and> (if \<exists>i < length (taskStatus s). status (taskStatus s ! i) = Pending
              \<or> status (taskStatus s ! i) = InProgress
        then cluster_workers s' = removeAll w (cluster_workers s) @ [next_worker_id s]
           \<and> next_worker_id s \<notin> set (cluster_workers s)
           \<and> next_worker_id s \<noteq> w
           \<and> effects s' = effects s @ [Print (WorkerExitedLine w),
                Print StartingNewWorkerLine, Fork (next_worker_id s)]
           \<and> map_of (workerStatus s') (next_worker_id s) = Some ''Idle''
           \<and> (\<forall>now. enabled s' (WorkerOnline (next_worker_id s) now)
                \<and> handle s' (WorkerOnline (next_worker_id s) now) =
                    assignTask (next_worker_id s) now
                      (s'\<lparr>awaiting_online := awaiting_online s' - {next_worker_id s}\<rparr>))
        else cluster_workers s' = removeAll w (cluster_workers s)
           \<and> awaiting_online s' = awaiting_online s - {w}
           \<and> effects s' = effects s @ [Print (WorkerExitedLine w)])"
proof -
  have it: "inv_tasks s" and iw: "inv_workers s"
    using assms(1) by (simp_all add: reachable_inv_tasks reachable_inv_workers)
  have fresh: "next_worker_id s \<notin> set (cluster_workers s)"
    using iw by (rule fork_worker_fresh)
  have ne: "next_worker_id s \<noteq> w"
    using fresh assms(2) by auto
  show ?thesis
    unfolding work_remains_iff [OF it]
    using fresh ne
    by (simp add: onExit_def fork_worker_def Let_def AList.delete_conv AList.update_conv)
qed

theorem worker_exit_witness:
  "(\<exists>s s'. run (init 1 [''a'', ''b'']) [WorkerOnline 1 0] = Some (Inr s) \<and> reachable s
      \<and> handle s (WorkerExit 1) = Inr s' \<and> cluster_workers s' = [2]
      \<and> map_of (workerStatus s') 1 = None)
   \<and> (\<exists>s s'. run (init 1 [''u'']) [WorkerOnline 1 0, TimeoutFired 0 1 300000] = Some (Inr s)
      \<and> reachable s \<and> handle s (WorkerExit 1) = Inr s' \<and> cluster_workers s' = []
      \<and> effects s' = effects s @ [Print (WorkerExitedLine 1)])"
proof -
  obtain s where r: "run (init 1 [''a'', ''b'']) [WorkerOnline 1 0] = Some (Inr s)"
    and e: "enabled s (WorkerExit 1)"
    and f: "length (taskStatus s) = 2" "status (taskStatus s ! 1) = Pending"
      "cluster_workers s = [1]" "next_worker_id s = 2"
    using run_two_assigned by blast
  have reach: "reachable s" by (rule run_reachable [OF reachable.start r])
  have w: "\<exists>i < length (taskStatus s). status (taskStatus s ! i) = Pending
              \<or> status (taskStatus s ! i) = InProgress"
    using f by (intro exI [of _ 1]) simp
  from worker_exit [OF reach e] w f obtain s' where "handle s (WorkerExit 1) = Inr s'"
    "cluster_workers s' = [2]" "map_of (workerStatus s') 1 = None"
    by auto
  with r reach have first: "\<exists>s s'. run (init 1 [''a'', ''b'']) [WorkerOnline 1 0] = Some (Inr s)
      \<and> reachable s \<and> handle s (WorkerExit 1) = Inr s' \<and> cluster_workers s' = [2]
      \<and> map_of (workerStatus s') 1 = None"
    by blast
  obtain u where ru: "run (init 1 [''u'']) [WorkerOnline 1 0, TimeoutFired 0 1 300000] = Some (Inr u)"
    and eu: "enabled u (WorkerExit 1)"
    and fu: "length (taskStatus u) = 1" "status (taskStatus u ! 0) = TimedOut"
      "cluster_workers u = [1]"
    using run_all_timed_out by blast
  have reachu: "reachable u" by (rule run_reachable [OF reachable.start ru])
  have nw: "\<not> (\<exists>i < length (taskStatus u). status (taskStatus u ! i) = Pending
              \<or> status (taskStatus u ! i) = InProgress)"
    using fu by simp
  from worker_exit [OF reachu eu] nw fu obtain u' where "handle u (WorkerExit 1) = Inr u'"
    "cluster_workers u' = []" "effects u' = effects u @ [Print (WorkerExitedLine 1)]"
    by auto
  with ru reachu have "\<exists>s s'. run (init 1 [''u'']) [WorkerOnline 1 0, TimeoutFired 0 1 300000]
        = Some (Inr s)
      \<and> reachable s \<and> handle s (WorkerExit 1) = Inr s' \<and> cluster_workers s' = []
      \<and> effects s' = effects s @ [Print (WorkerExitedLine 1)]"
    by blast
  with first show ?thesis by blast
qed

subsection \<open>Assigning a task\<close>

lemma assignTask_idle: "taskQueue c = [] \<Longrightarrow> assignTask w now c = Inr c"
  by (simp add: assignTask_def)

lemma assignTask_inv:
  assumes "inv_tasks c" and "taskQueue c \<noteq> []"
  shows "hd (taskQueue c) = \<lparr>url = urls c ! assigned c, index = assigned c\<rparr>"
    and "assigned c < length (taskStatus c)"
    and "w \<notin> set (cluster_workers c) \<Longrightarrow> assignTask w now c = Inl TypeError"
    and "w \<in> set (cluster_workers c) \<Longrightarrow> assignTask w now c =
      Inr (c\<lparr>taskQueue := tl (taskQueue c),
             startTimes := AList.update (assigned c) now (startTimes c),
             inProgress := insert (assigned c) (inProgress c),
             taskStatus := (taskStatus c)[assigned c :=
                (taskStatus c ! assigned c)\<lparr>status := InProgress, progress := 10\<rparr>],
             effects := effects c @ [Send w (urls c ! assigned c) (assigned c)],
             timers := timers c @ [(assigned c, w, TASK_TIMEOUT)]\<rparr>)"
proof -
  from assms(2) obtain t rest where q: "taskQueue c = t # rest"
    by (cases "taskQueue c") auto
  note h = queue_head [OF assms(1) q]
  have len: "length (taskStatus c) = length (urls c)"
    using assms(1) by (simp add: inv_tasks_def)
  show "hd (taskQueue c) = \<lparr>url = urls c ! assigned c, index = assigned c\<rparr>"
    using q h(2) by simp
  show lt: "assigned c < length (taskStatus c)"
    using h(1) len by simp
  have t: "index t = assigned c" "url t = urls c ! assigned c"
    using h(2) by simp_all
  show "w \<notin> set (cluster_workers c) \<Longrightarrow> assignTask w now c = Inl TypeError"
    using q lt by (simp add: assignTask_def t)
  show "w \<in> set (cluster_workers c) \<Longrightarrow> assignTask w now c =
      Inr (c\<lparr>taskQueue := tl (taskQueue c),
             startTimes := AList.update (assigned c) now (startTimes c),
             inProgress := insert (assigned c) (inProgress c),
             taskStatus := (taskStatus c)[assigned c :=
                (taskStatus c ! assigned c)\<lparr>status := InProgress, progress := 10\<rparr>],
             effects := effects c @ [Send w (urls c ! assigned c) (assigned c)],
             timers := timers c @ [(assigned c, w, TASK_TIMEOUT)]\<rparr>)"
    using q lt by (simp add: assignTask_def t)
qed

text \<open>
  What \<^verbatim>\<open>assignTask\<close> does when its worker is there. With an empty queue it returns the
  state as it is. Otherwise, for a worker that is in \<^verbatim>\<open>cluster.workers\<close>, it takes the task
  at the head of the queue, stores the time under the task's index, puts the task in
  progress at 10 percent, sends it to the worker and arms a timer of 300000 ms for it. In a
  run the queue is what is left of the input, so the task that the listener of
  \<^verbatim>\<open>'online'\<close> hands out is the url at the position that counts the tasks handed out
  before, with that position as its index.
\<close>

lemma assignTask_spec:
  "(taskQueue s = [] \<longrightarrow> assignTask w now s = Inr s)
   \<and> (\<forall>t rest. taskQueue s = t # rest \<and> index t < length (taskStatus s)
          \<and> w \<in> set (cluster_workers s) \<longrightarrow>
        (\<exists>s'. assignTask w now s = Inr s' \<and> taskQueue s' = rest
           \<and> map_of (startTimes s') (index t) = Some now
           \<and> index t \<in> inProgress s'
           \<and> status (taskStatus s' ! index t) = InProgress
           \<and> progress (taskStatus s' ! index t) = 10
           \<and> effects s' = effects s @ [Send w (url t) (index t)]
           \<and> timers s' = timers s @ [(index t, w, 300000)]))
   \<and> (reachable s \<and> enabled s (WorkerOnline w now) \<and> taskQueue s = [] \<longrightarrow>
        handle s (WorkerOnline w now) = Inr (s\<lparr>awaiting_online := awaiting_online s - {w}\<rparr>))
   \<and> (reachable s \<and> enabled s (WorkerOnline w now) \<and> taskQueue s \<noteq> [] \<longrightarrow>
        (\<exists>s' k. handle s (WorkerOnline w now) = Inr s'
           \<and> k = length (urls s) - length (taskQueue s) \<and> k < length (urls s)
           \<and> hd (taskQueue s) = \<lparr>url = urls s ! k, index = k\<rparr>
           \<and> taskQueue s' = tl (taskQueue s)
           \<and> map_of (startTimes s') k = Some now
           \<and> k \<in> inProgress s'
           \<and> status (taskStatus s' ! k) = InProgress \<and> progress (taskStatus s' ! k) = 10
           \<and> effects s' = effects s @ [Send w (urls s ! k) k]
           \<and> timers s' = timers s @ [(k, w, 300000)]))"
proof (intro conjI impI allI)
  show "taskQueue s = [] \<Longrightarrow> assignTask w now s = Inr s"
    by (rule assignTask_idle)
next
  fix t rest
  assume "taskQueue s = t # rest \<and> index t < length (taskStatus s)
          \<and> w \<in> set (cluster_workers s)"
  then show "\<exists>s'. assignTask w now s = Inr s' \<and> taskQueue s' = rest
           \<and> map_of (startTimes s') (index t) = Some now
           \<and> index t \<in> inProgress s'
           \<and> status (taskStatus s' ! index t) = InProgress
           \<and> progress (taskStatus s' ! index t) = 10
           \<and> effects s' = effects s @ [Send w (url t) (index t)]
           \<and> timers s' = timers s @ [(index t, w, 300000)]"
    by (simp add: assignTask_def AList.update_conv TASK_TIMEOUT_def)
next
  assume "reachable s \<and> enabled s (WorkerOnline w now) \<and> taskQueue s = []"
  then show "handle s (WorkerOnline w now) = Inr (s\<lparr>awaiting_online := awaiting_online s - {w}\<rparr>)"
    by (simp add: assignTask_def)
next
  assume a: "reachable s \<and> enabled s (WorkerOnline w now) \<and> taskQueue s \<noteq> []"
  let ?c = "s\<lparr>awaiting_online := awaiting_online s - {w}\<rparr>"
  from a have it: "inv_tasks s" and iw: "inv_workers s"
    by (simp_all add: reachable_inv_tasks reachable_inv_workers)
  have ic: "inv_tasks ?c" by (rule inv_tasks_cong [OF it]) simp_all
  have q: "taskQueue ?c \<noteq> []" using a by simp
  have w: "w \<in> set (cluster_workers ?c)"
    using a iw by (auto simp: inv_workers_def)
  have k: "assigned ?c = length (urls s) - length (taskQueue s)"
    by (simp add: assigned_def)
  have len: "length (taskStatus s) = length (urls s)"
    using it by (simp add: inv_tasks_def)
  note r = assignTask_inv [OF ic q]
  show "\<exists>s' k. handle s (WorkerOnline w now) = Inr s'
           \<and> k = length (urls s) - length (taskQueue s) \<and> k < length (urls s)
           \<and> hd (taskQueue s) = \<lparr>url = urls s ! k, index = k\<rparr>
           \<and> taskQueue s' = tl (taskQueue s)
           \<and> map_of (startTimes s') k = Some now
           \<and> k \<in> inProgress s'
           \<and> status (taskStatus s' ! k) = InProgress \<and> progress (taskStatus s' ! k) = 10
           \<and> effects s' = effects s @ [Send w (urls s ! k) k]
           \<and> timers s' = timers s @ [(k, w, 300000)]"
    using r(1) r(2) r(4) [OF w, of now] len
    by (simp add: k AList.update_conv TASK_TIMEOUT_def)
qed

lemma assignTask_spec_example:
  "assignTask 1 0 (init 1 []) = Inr (init 1 [])
   \<and> handle (init 1 []) (WorkerOnline 1 0) =
       Inr ((init 1 [])\<lparr>awaiting_online := awaiting_online (init 1 []) - {1}\<rparr>)
   \<and> (\<exists>s'. assignTask 1 7 (init 1 [''a'', ''b'']) = Inr s'
         \<and> taskQueue s' = [\<lparr>url = ''b'', index = 1\<rparr>]
         \<and> effects s' = effects (init 1 [''a'', ''b'']) @ [Send 1 ''a'' 0])
   \<and> (\<exists>s'. handle (init 1 [''a'', ''b'']) (WorkerOnline 1 7) = Inr s'
         \<and> taskQueue s' = [\<lparr>url = ''b'', index = 1\<rparr>]
         \<and> map_of (startTimes s') 0 = Some 7
         \<and> status (taskStatus s' ! 0) = InProgress \<and> progress (taskStatus s' ! 0) = 10
         \<and> effects s' = effects (init 1 [''a'', ''b'']) @ [Send 1 ''a'' 0]
         \<and> timers s' = [(0, 1, 300000)])"
proof -
  let ?I = "init 1 [''a'', ''b'']"
  have "enabled ?I (WorkerOnline 1 7) \<and> taskQueue ?I \<noteq> []"
    by (simp add: step_defs)
  then have e: "taskQueue (init 1 []) = []"
    "reachable ?I \<and> enabled ?I (WorkerOnline 1 7) \<and> taskQueue ?I \<noteq> []"
    by (simp_all add: reachable.start) (simp add: step_defs)
  have "enabled (init 1 []) (WorkerOnline 1 0)" by (simp add: step_defs)
  with e(1) have e0: "reachable (init 1 []) \<and> enabled (init 1 []) (WorkerOnline 1 0)
      \<and> taskQueue (init 1 []) = []"
    by (simp add: reachable.start)
  have v: "length (urls ?I) - length (taskQueue ?I) = 0"
    "tl (taskQueue ?I) = [\<lparr>url = ''b'', index = 1\<rparr>]"
    "urls ?I ! 0 = ''a''" "timers ?I = []"
    by (simp_all add: step_defs)
  have q: "taskQueue ?I = \<lparr>url = ''a'', index = 0\<rparr> # [\<lparr>url = ''b'', index = 1\<rparr>]
      \<and> index \<lparr>url = ''a'', index = 0\<rparr> < length (taskStatus ?I)
      \<and> 1 \<in> set (cluster_workers ?I)"
    by (simp add: step_defs)
  from assignTask_spec [of "init 1 []" 1 0] e(1) e0
  have first: "assignTask 1 0 (init 1 []) = Inr (init 1 [])"
    "handle (init 1 []) (WorkerOnline 1 0) =
       Inr ((init 1 [])\<lparr>awaiting_online := awaiting_online (init 1 []) - {1}\<rparr>)"
    by blast+
  from assignTask_spec [of ?I 1 7] q
  have "\<exists>s'. assignTask 1 7 ?I = Inr s' \<and> taskQueue s' = [\<lparr>url = ''b'', index = 1\<rparr>]
           \<and> map_of (startTimes s') (index \<lparr>url = ''a'', index = 0\<rparr>) = Some 7
           \<and> index \<lparr>url = ''a'', index = 0\<rparr> \<in> inProgress s'
           \<and> status (taskStatus s' ! index \<lparr>url = ''a'', index = 0\<rparr>) = InProgress
           \<and> progress (taskStatus s' ! index \<lparr>url = ''a'', index = 0\<rparr>) = 10
           \<and> effects s' = effects ?I @ [Send 1 (url \<lparr>url = ''a'', index = 0\<rparr>)
                (index \<lparr>url = ''a'', index = 0\<rparr>)]
           \<and> timers s' = timers ?I @ [(index \<lparr>url = ''a'', index = 0\<rparr>, 1, 300000)]"
    by blast
  then have local: "\<exists>s'. assignTask 1 7 ?I = Inr s'
         \<and> taskQueue s' = [\<lparr>url = ''b'', index = 1\<rparr>]
         \<and> effects s' = effects ?I @ [Send 1 ''a'' 0]"
    by auto
  from assignTask_spec [of ?I 1 7] e(2)
  obtain s' k where h: "handle ?I (WorkerOnline 1 7) = Inr s'"
    and k: "k = length (urls ?I) - length (taskQueue ?I)"
    and p: "taskQueue s' = tl (taskQueue ?I)"
      "map_of (startTimes s') k = Some 7"
      "status (taskStatus s' ! k) = InProgress" "progress (taskStatus s' ! k) = 10"
      "effects s' = effects ?I @ [Send 1 (urls ?I ! k) k]"
      "timers s' = timers ?I @ [(k, 1, 300000)]"
    by blast
  have k0: "k = 0" using k v(1) by simp
  from p have "taskQueue s' = [\<lparr>url = ''b'', index = 1\<rparr>]"
      "map_of (startTimes s') 0 = Some 7"
      "status (taskStatus s' ! 0) = InProgress" "progress (taskStatus s' ! 0) = 10"
      "effects s' = effects ?I @ [Send 1 ''a'' 0]"
      "timers s' = [(0, 1, 300000)]"
    unfolding k0 v by simp_all
  with first local h show ?thesis by blast
qed

text \<open>
  C6, evaluated on the code. Not every call of \<^verbatim>\<open>assignTask\<close> sends the task and arms the
  timer. One CPU and two urls: worker 1 comes online, gets task 0 and exits, and worker 2 is
  forked. When the timer of task 0 fires, its closure calls \<^verbatim>\<open>assignTask(1)\<close> in a state
  whose queue holds task 1 and whose \<^verbatim>\<open>cluster.workers\<close> holds worker 2 only. The call
  takes the task from the queue and then fails on \<^verbatim>\<open>cluster.workers[1].send\<close> with a
  TypeError, before the \<^verbatim>\<open>send\<close> and before \<^verbatim>\<open>setTimeout\<close>: it returns no state.
\<close>

theorem assignTask_worker_gone:
  "\<exists>s c. run (init 1 [''a'', ''b'']) [WorkerOnline 1 0, WorkerExit 1] = Some (Inr s)
     \<and> enabled s (TimeoutFired 0 1 300000) \<and> 0 \<in> inProgress s
     \<and> c = checkCompletion (mark_timed_out 0
             (s\<lparr>timers := remove1 (0, 1, TASK_TIMEOUT) (timers s)\<rparr>))
     \<and> handle s (TimeoutFired 0 1 300000) = assignTask 1 300000 c
     \<and> taskQueue c = [\<lparr>url = ''b'', index = 1\<rparr>]
     \<and> cluster_workers c = [2]
     \<and> assignTask 1 300000 c = Inl TypeError
     \<and> (\<forall>s'. assignTask 1 300000 c \<noteq> Inr s')"
  by (simp add: step_defs)

subsection \<open>A timer fires\<close>

lemma checkCompletion_sel:
  "urls (checkCompletion x) = urls x" "taskStatus (checkCompletion x) = taskStatus x"
  "taskQueue (checkCompletion x) = taskQueue x" "inProgress (checkCompletion x) = inProgress x"
  "completedTasks (checkCompletion x) = completedTasks x"
  "timedOutTasks (checkCompletion x) = timedOutTasks x"
  "totalProcessedTasks (checkCompletion x) = totalProcessedTasks x"
  "cluster_workers (checkCompletion x) = cluster_workers x"
  "timers (checkCompletion x) = timers x" "startTimes (checkCompletion x) = startTimes x"
  "consoleUpdateInterval (checkCompletion x) =
     (consoleUpdateInterval x \<and> totalProcessedTasks x \<noteq> length (urls x))"
  by (simp_all add: checkCompletion_def updateConsole_def Let_def)

lemma checkCompletion_effects:
  "effects (checkCompletion x) = effects x @
     (if totalProcessedTasks x = length (urls x)
      then map Print (console_lines x) @ shutdown_block (length (urls x)) (completedTasks x)
             (timedOutTasks x) (cluster_workers x)
      else [])"
  by (simp add: checkCompletion_def updateConsole_def console_lines_def Let_def
      shutdown_block_def)

lemma AllTasksCompleted_console: "Print AllTasksCompleted \<notin> set (map Print (console_lines x))"
  by (auto simp: console_lines_def)

lemma in_progress_iff:
  assumes "inv_tasks s"
  shows "i \<in> inProgress s \<longleftrightarrow> i < length (taskStatus s) \<and> status (taskStatus s ! i) = InProgress"
proof
  assume m: "i \<in> inProgress s"
  then have lt: "i < length (taskStatus s)" by (rule inv_tasks_in_range [OF assms])
  have "i < assigned s" using assms m by (auto simp: inv_tasks_def)
  with inv_tasks_status [OF assms lt] m lt
  show "i < length (taskStatus s) \<and> status (taskStatus s ! i) = InProgress" by simp
next
  assume "i < length (taskStatus s) \<and> status (taskStatus s ! i) = InProgress"
  with inv_tasks_status [OF assms, of i] show "i \<in> inProgress s"
    by (auto split: if_splits)
qed

text \<open>
  C5. The closure does nothing when its task is not in \<^verbatim>\<open>inProgress\<close>. When a timer fires
  in a run and its task is in progress (which, in a run, is the same as its status being
  \<^verbatim>\<open>'In Progress'\<close>), the closure marks the task, calls \<^verbatim>\<open>checkCompletion\<close> and then
  \<^verbatim>\<open>assignTask\<close> with the worker id it captured. Afterwards the task is timed out with
  progress 0, the two counters are one higher, the shutdown has been printed exactly when
  the new processed count is the number of urls, and the head of the queue, if there is
  one, has been sent to that worker, which is not asked whether it has finished. The only
  other outcome is the TypeError of a worker that is no longer in \<^verbatim>\<open>cluster.workers\<close>.
\<close>

theorem timeout_fires:
  "(i \<notin> inProgress x \<longrightarrow> timeoutCallback i w now x = Inr x)
   \<and> (reachable s \<and> enabled s (TimeoutFired i w now) \<and> i \<in> inProgress s \<longrightarrow>
        i < length (taskStatus s) \<and> status (taskStatus s ! i) = InProgress
      \<and> handle s (TimeoutFired i w now) =
          assignTask w now (checkCompletion (mark_timed_out i
            (s\<lparr>timers := remove1 (i, w, TASK_TIMEOUT) (timers s)\<rparr>)))
      \<and> (handle s (TimeoutFired i w now) = Inl TypeError \<longleftrightarrow>
            taskQueue s \<noteq> [] \<and> w \<notin> set (cluster_workers s))
      \<and> (\<forall>s'. handle s (TimeoutFired i w now) = Inr s' \<longrightarrow>
            status (taskStatus s' ! i) = TimedOut \<and> progress (taskStatus s' ! i) = 0
          \<and> i \<notin> inProgress s'
          \<and> timedOutTasks s' = timedOutTasks s + 1
          \<and> totalProcessedTasks s' = totalProcessedTasks s + 1
          \<and> completedTasks s' = completedTasks s
          \<and> (consoleUpdateInterval s' \<longleftrightarrow>
                consoleUpdateInterval s \<and> totalProcessedTasks s + 1 \<noteq> length (urls s))
          \<and> (Print AllTasksCompleted \<in> set (drop (length (effects s)) (effects s')) \<longleftrightarrow>
                totalProcessedTasks s + 1 = length (urls s))
          \<and> (taskQueue s = [] \<longrightarrow> taskQueue s' = [] \<and> inProgress s' = inProgress s - {i})
          \<and> (taskQueue s \<noteq> [] \<longrightarrow>
                w \<in> set (cluster_workers s)
              \<and> taskQueue s' = tl (taskQueue s)
              \<and> inProgress s' = insert (index (hd (taskQueue s))) (inProgress s - {i})
              \<and> status (taskStatus s' ! index (hd (taskQueue s))) = InProgress
              \<and> last (effects s') = Send w (url (hd (taskQueue s))) (index (hd (taskQueue s)))
              \<and> last (timers s') = (index (hd (taskQueue s)), w, TASK_TIMEOUT))))"
  (is "?idle \<and> (?fires \<longrightarrow> ?result)")
proof (rule conjI)
  show ?idle by (simp add: timeoutCallback_def)
next
  show "?fires \<longrightarrow> ?result"
  proof (rule impI)
    assume a: ?fires
    then have mem: "i \<in> inProgress s" by simp
    let ?s0 = "s\<lparr>timers := remove1 (i, w, TASK_TIMEOUT) (timers s)\<rparr>"
    let ?m = "mark_timed_out i ?s0"
    let ?c = "checkCompletion ?m"
    let ?h = "handle s (TimeoutFired i w now)"
    have it: "inv_tasks s" using a by (simp add: reachable_inv_tasks)
    have i0: "inv_tasks ?s0" by (rule inv_tasks_cong [OF it]) simp_all
    have first: "i \<in> inProgress s \<longleftrightarrow>
              i < length (taskStatus s) \<and> status (taskStatus s ! i) = InProgress"
      by (rule in_progress_iff [OF it])
    have third: "?h = assignTask w now ?c
        \<and> (?h = Inl TypeError \<longleftrightarrow> taskQueue s \<noteq> [] \<and> w \<notin> set (cluster_workers s))
        \<and> (\<forall>s'. ?h = Inr s' \<longrightarrow>
              status (taskStatus s' ! i) = TimedOut \<and> progress (taskStatus s' ! i) = 0
            \<and> i \<notin> inProgress s'
            \<and> timedOutTasks s' = timedOutTasks s + 1
            \<and> totalProcessedTasks s' = totalProcessedTasks s + 1
            \<and> completedTasks s' = completedTasks s
            \<and> (consoleUpdateInterval s' \<longleftrightarrow>
                  consoleUpdateInterval s \<and> totalProcessedTasks s + 1 \<noteq> length (urls s))
            \<and> (Print AllTasksCompleted \<in> set (drop (length (effects s)) (effects s')) \<longleftrightarrow>
                  totalProcessedTasks s + 1 = length (urls s))
            \<and> (taskQueue s = [] \<longrightarrow> taskQueue s' = [] \<and> inProgress s' = inProgress s - {i})
            \<and> (taskQueue s \<noteq> [] \<longrightarrow>
                  w \<in> set (cluster_workers s)
                \<and> taskQueue s' = tl (taskQueue s)
                \<and> inProgress s' = insert (index (hd (taskQueue s))) (inProgress s - {i})
                \<and> status (taskStatus s' ! index (hd (taskQueue s))) = InProgress
                \<and> last (effects s') = Send w (url (hd (taskQueue s))) (index (hd (taskQueue s)))
                \<and> last (timers s') = (index (hd (taskQueue s)), w, TASK_TIMEOUT)))"
    proof -
      have ilt: "i < length (taskStatus s)" using mem by (rule inv_tasks_in_range [OF it])
      have ia: "i < assigned s" using it mem by (auto simp: inv_tasks_def)
      have h: "?h = assignTask w now ?c"
        using mem ilt by (simp add: timeoutCallback_def)
      have im: "inv_tasks ?m" using i0 mem by (simp add: inv_tasks_mark_timed_out)
      then have ic: "inv_tasks ?c" by (rule inv_tasks_checkCompletion)
      have sel: "taskQueue ?c = taskQueue s" "cluster_workers ?c = cluster_workers s"
        "urls ?c = urls s" "inProgress ?c = inProgress s - {i}"
        "timedOutTasks ?c = timedOutTasks s + 1" "totalProcessedTasks ?c = totalProcessedTasks s + 1"
        "completedTasks ?c = completedTasks s"
        "taskStatus ?c = (taskStatus s)[i := (taskStatus s ! i)\<lparr>status := TimedOut, progress := 0\<rparr>]"
        "consoleUpdateInterval ?c =
           (consoleUpdateInterval s \<and> totalProcessedTasks s + 1 \<noteq> length (urls s))"
        by (simp_all add: checkCompletion_sel mark_timed_out_def)
      have ac: "assigned ?c = assigned s" by (simp add: assigned_def sel)
      have eff: "drop (length (effects s)) (effects ?c) =
         Print (TaskTimedOutLine (i + 1)) #
         (if totalProcessedTasks s + 1 = length (urls s)
          then map Print (console_lines ?m) @ shutdown_block (length (urls s)) (completedTasks s)
                 (timedOutTasks s + 1) (cluster_workers s)
          else [])"
        by (simp add: checkCompletion_effects mark_timed_out_def)
      have mark: "Print AllTasksCompleted \<in> set (drop (length (effects s)) (effects ?c)) \<longleftrightarrow>
          totalProcessedTasks s + 1 = length (urls s)"
        unfolding eff using AllTasksCompleted_console [of ?m]
        by (auto simp: shutdown_block_def)
      have sti: "status (taskStatus ?c ! i) = TimedOut" "progress (taskStatus ?c ! i) = 0"
        using ilt by (simp_all add: sel)
      show ?thesis
      proof (cases "taskQueue s = []")
        case True
        then have "assignTask w now ?c = Inr ?c" by (simp add: assignTask_idle sel)
        with h True sti mark show ?thesis by (simp add: sel)
      next
        case False
        then have q: "taskQueue ?c \<noteq> []" by (simp add: sel)
        note r = assignTask_inv [OF ic q]
        have hd: "index (hd (taskQueue s)) = assigned s" "url (hd (taskQueue s)) = urls s ! assigned s"
          using r(1) by (simp_all add: sel ac)
        have alt: "assigned s < length (taskStatus s)" using r(2) by (simp add: sel ac)
        show ?thesis
        proof (cases "w \<in> set (cluster_workers s)")
          case w: False
          then have "assignTask w now ?c = Inl TypeError" using r(3) by (simp add: sel)
          with h False w show ?thesis by simp
        next
          case w: True
          let ?d = "?c\<lparr>taskQueue := tl (taskQueue ?c),
               startTimes := AList.update (assigned ?c) now (startTimes ?c),
               inProgress := insert (assigned ?c) (inProgress ?c),
               taskStatus := (taskStatus ?c)[assigned ?c :=
                  (taskStatus ?c ! assigned ?c)\<lparr>status := InProgress, progress := 10\<rparr>],
               effects := effects ?c @ [Send w (urls ?c ! assigned ?c) (assigned ?c)],
               timers := timers ?c @ [(assigned ?c, w, TASK_TIMEOUT)]\<rparr>"
          have hd': "?h = Inr ?d" using h r(4) [of w now] w by (simp add: sel)
          with h have eq: "assignTask w now ?c = Inr ?d" by simp
          have len: "length (effects s) \<le> length (effects ?c)"
            by (simp add: checkCompletion_effects mark_timed_out_def)
          have dr: "drop (length (effects s)) (effects ?d) =
              drop (length (effects s)) (effects ?c) @ [Send w (urls s ! assigned s) (assigned s)]"
            using len by (simp add: sel ac)
          have "Print AllTasksCompleted \<in> set (drop (length (effects s)) (effects ?d)) \<longleftrightarrow>
              totalProcessedTasks s + 1 = length (urls s)"
            unfolding dr using mark by simp
          moreover have "status (taskStatus ?d ! i) = TimedOut" "progress (taskStatus ?d ! i) = 0"
            "status (taskStatus ?d ! assigned s) = InProgress"
            using ia ilt alt by (simp_all add: sel ac)
          moreover have "i \<notin> inProgress ?d" using ia by (simp add: sel ac)
          ultimately show ?thesis
            unfolding hd' eq using False w by (simp add: sel ac hd)
        qed
      qed
    qed
    with first mem show ?result by blast
  qed
qed

theorem timeout_fires_witness:
  "timeoutCallback 0 1 300000 (init 1 [''u'']) = Inr (init 1 [''u''])
   \<and> (\<exists>s s'. run (init 1 [''a'', ''b'']) [WorkerOnline 1 0] = Some (Inr s) \<and> reachable s
         \<and> handle s (TimeoutFired 0 1 300000) = Inr s'
         \<and> status (taskStatus s' ! 0) = TimedOut \<and> progress (taskStatus s' ! 0) = 0
         \<and> timedOutTasks s' = timedOutTasks s + 1
         \<and> totalProcessedTasks s' = totalProcessedTasks s + 1
         \<and> taskQueue s' = []
         \<and> last (effects s') = Send 1 ''b'' 1)
   \<and> (\<exists>s s'. run (init 1 [''u'']) [WorkerOnline 1 0] = Some (Inr s) \<and> reachable s
         \<and> handle s (TimeoutFired 0 1 300000) = Inr s'
         \<and> status (taskStatus s' ! 0) = TimedOut
         \<and> taskQueue s' = [] \<and> inProgress s' = {}
         \<and> Print AllTasksCompleted \<in> set (drop (length (effects s)) (effects s')))"
proof -
  have n: "0 \<notin> inProgress (init 1 [''u''])" by (simp add: step_defs)
  obtain s where r: "run (init 1 [''a'', ''b'']) [WorkerOnline 1 0] = Some (Inr s)"
    and e: "enabled s (TimeoutFired 0 1 300000)" "0 \<in> inProgress s"
    and f: "cluster_workers s = [1]" "taskQueue s = [\<lparr>url = ''b'', index = 1\<rparr>]"
    using run_two_assigned by blast
  have reach: "reachable s" by (rule run_reachable [OF reachable.start r])
  note t = timeout_fires [of 0 "init 1 [''u'']" 1 300000 s]
  from t n have first: "timeoutCallback 0 1 300000 (init 1 [''u'']) = Inr (init 1 [''u''])"
    by blast
  from t reach e have crash: "handle s (TimeoutFired 0 1 300000) = Inl TypeError \<longleftrightarrow>
            taskQueue s \<noteq> [] \<and> 1 \<notin> set (cluster_workers s)"
    and rest: "\<forall>s'. handle s (TimeoutFired 0 1 300000) = Inr s' \<longrightarrow>
            status (taskStatus s' ! 0) = TimedOut \<and> progress (taskStatus s' ! 0) = 0
          \<and> 0 \<notin> inProgress s'
          \<and> timedOutTasks s' = timedOutTasks s + 1
          \<and> totalProcessedTasks s' = totalProcessedTasks s + 1
          \<and> completedTasks s' = completedTasks s
          \<and> (consoleUpdateInterval s' \<longleftrightarrow>
                consoleUpdateInterval s \<and> totalProcessedTasks s + 1 \<noteq> length (urls s))
          \<and> (Print AllTasksCompleted \<in> set (drop (length (effects s)) (effects s')) \<longleftrightarrow>
                totalProcessedTasks s + 1 = length (urls s))
          \<and> (taskQueue s = [] \<longrightarrow> taskQueue s' = [] \<and> inProgress s' = inProgress s - {0})
          \<and> (taskQueue s \<noteq> [] \<longrightarrow>
                1 \<in> set (cluster_workers s)
              \<and> taskQueue s' = tl (taskQueue s)
              \<and> inProgress s' = insert (index (hd (taskQueue s))) (inProgress s - {0})
              \<and> status (taskStatus s' ! index (hd (taskQueue s))) = InProgress
              \<and> last (effects s') = Send 1 (url (hd (taskQueue s))) (index (hd (taskQueue s)))
              \<and> last (timers s') = (index (hd (taskQueue s)), 1, TASK_TIMEOUT))"
    by blast+
  from crash f have "handle s (TimeoutFired 0 1 300000) \<noteq> Inl TypeError" by simp
  then obtain s' where h: "handle s (TimeoutFired 0 1 300000) = Inr s'"
    by (cases "handle s (TimeoutFired 0 1 300000)") (auto intro: error.exhaust)
  from rest h f have "status (taskStatus s' ! 0) = TimedOut" "progress (taskStatus s' ! 0) = 0"
    "timedOutTasks s' = timedOutTasks s + 1" "totalProcessedTasks s' = totalProcessedTasks s + 1"
    "taskQueue s' = []" "last (effects s') = Send 1 ''b'' 1"
    by simp_all
  with r reach h have second: "\<exists>s s'. run (init 1 [''a'', ''b'']) [WorkerOnline 1 0] = Some (Inr s)
         \<and> reachable s
         \<and> handle s (TimeoutFired 0 1 300000) = Inr s'
         \<and> status (taskStatus s' ! 0) = TimedOut \<and> progress (taskStatus s' ! 0) = 0
         \<and> timedOutTasks s' = timedOutTasks s + 1
         \<and> totalProcessedTasks s' = totalProcessedTasks s + 1
         \<and> taskQueue s' = []
         \<and> last (effects s') = Send 1 ''b'' 1"
    by blast
  obtain u where ru: "run (init 1 [''u'']) [WorkerOnline 1 0] = Some (Inr u)"
    and eu: "enabled u (TimeoutFired 0 1 300000)" "0 \<in> inProgress u"
    and fu: "taskQueue u = []" "inProgress u = {0}"
      "totalProcessedTasks u + 1 = length (urls u)"
    using run_one_assigned by blast
  have reachu: "reachable u" by (rule run_reachable [OF reachable.start ru])
  note tu = timeout_fires [of 0 "init 1 [''u'']" 1 300000 u]
  from tu reachu eu have crashu: "handle u (TimeoutFired 0 1 300000) = Inl TypeError \<longleftrightarrow>
            taskQueue u \<noteq> [] \<and> 1 \<notin> set (cluster_workers u)"
    and restu: "\<forall>s'. handle u (TimeoutFired 0 1 300000) = Inr s' \<longrightarrow>
            status (taskStatus s' ! 0) = TimedOut \<and> progress (taskStatus s' ! 0) = 0
          \<and> 0 \<notin> inProgress s'
          \<and> timedOutTasks s' = timedOutTasks u + 1
          \<and> totalProcessedTasks s' = totalProcessedTasks u + 1
          \<and> completedTasks s' = completedTasks u
          \<and> (consoleUpdateInterval s' \<longleftrightarrow>
                consoleUpdateInterval u \<and> totalProcessedTasks u + 1 \<noteq> length (urls u))
          \<and> (Print AllTasksCompleted \<in> set (drop (length (effects u)) (effects s')) \<longleftrightarrow>
                totalProcessedTasks u + 1 = length (urls u))
          \<and> (taskQueue u = [] \<longrightarrow> taskQueue s' = [] \<and> inProgress s' = inProgress u - {0})
          \<and> (taskQueue u \<noteq> [] \<longrightarrow>
                1 \<in> set (cluster_workers u)
              \<and> taskQueue s' = tl (taskQueue u)
              \<and> inProgress s' = insert (index (hd (taskQueue u))) (inProgress u - {0})
              \<and> status (taskStatus s' ! index (hd (taskQueue u))) = InProgress
              \<and> last (effects s') = Send 1 (url (hd (taskQueue u))) (index (hd (taskQueue u)))
              \<and> last (timers s') = (index (hd (taskQueue u)), 1, TASK_TIMEOUT))"
    by blast+
  from crashu fu have "handle u (TimeoutFired 0 1 300000) \<noteq> Inl TypeError" by simp
  then obtain u' where hu: "handle u (TimeoutFired 0 1 300000) = Inr u'"
    by (cases "handle u (TimeoutFired 0 1 300000)") (auto intro: error.exhaust)
  from restu hu fu have "status (taskStatus u' ! 0) = TimedOut"
    "taskQueue u' = []" "inProgress u' = {}"
    "Print AllTasksCompleted \<in> set (drop (length (effects u)) (effects u'))"
    by simp_all
  with ru reachu hu have "\<exists>s s'. run (init 1 [''u'']) [WorkerOnline 1 0] = Some (Inr s)
         \<and> reachable s
         \<and> handle s (TimeoutFired 0 1 300000) = Inr s'
         \<and> status (taskStatus s' ! 0) = TimedOut
         \<and> taskQueue s' = [] \<and> inProgress s' = {}
         \<and> Print AllTasksCompleted \<in> set (drop (length (effects s)) (effects s'))"
    by blast
  with first second show ?thesis by blast
qed

subsection \<open>Armed timers\<close>

text \<open>Nothing but the timer of a task takes the task out of \<^verbatim>\<open>inProgress\<close>, so in a run a
  timer that fires always finds its task in progress.\<close>

lemma remove1_keys:
  assumes "distinct (map fst xs)" "x \<in> set xs"
  shows "distinct (map fst (remove1 x xs))" "fst ` set (remove1 x xs) = fst ` set xs - {fst x}"
  using assms by (induction xs) (auto simp: image_iff)

lemma inv_timers_cong:
  assumes "inv_timers s" "timers s' = timers s" "inProgress s' = inProgress s"
  shows "inv_timers s'"
  using assms by (simp add: inv_timers_def)

lemma inv_timers_fork_worker: "inv_timers s \<Longrightarrow> inv_timers (fork_worker s)"
  by (erule inv_timers_cong) (simp_all add: fork_worker_tasks)

lemma inv_timers_fork_loop: "inv_timers s \<Longrightarrow> inv_timers (fork_loop n s)"
  by (induction n arbitrary: s) (simp_all add: inv_timers_fork_worker)

lemma onExit_sel:
  "timers (onExit w x) = timers x" "inProgress (onExit w x) = inProgress x"
  by (simp_all add: onExit_def fork_worker_def Let_def)

lemma inv_timers_init: "inv_timers (init n us)"
  unfolding init_def by (rule inv_timers_fork_loop) (simp add: inv_timers_def)

lemma inv_timers_assignTask:
  assumes "inv_timers c" "inv_tasks c" "assignTask w now c = Inr s'"
  shows "inv_timers s'"
  using assms(3)
proof (cases rule: assignTask_Inr)
  case idle
  with assms(1) show ?thesis by simp
next
  case (sent t rest)
  from queue_head(2) [OF assms(2) sent(1)] have t: "index t = assigned c" by simp
  have "assigned c \<notin> inProgress c" using assms(2) by (auto simp: inv_tasks_def)
  with assms(1) show ?thesis
    by (auto simp: inv_timers_def sent(4) t)
qed

lemma inv_timers_handle:
  assumes "inv_timers s" "inv_tasks s" "enabled s e" "handle s e = Inr s'"
  shows "inv_timers s'"
proof (cases e)
  case (WorkerOnline w now)
  let ?c = "s\<lparr>awaiting_online := awaiting_online s - {w}\<rparr>"
  have "inv_timers ?c" by (rule inv_timers_cong [OF assms(1)]) simp_all
  moreover have "inv_tasks ?c" by (rule inv_tasks_cong [OF assms(2)]) simp_all
  ultimately show ?thesis
    using assms(4) WorkerOnline by (auto intro: inv_timers_assignTask)
next
  case (TimeoutFired i w now)
  let ?s0 = "s\<lparr>timers := remove1 (i, w, TASK_TIMEOUT) (timers s)\<rparr>"
  let ?c = "checkCompletion (mark_timed_out i ?s0)"
  have armed: "(i, w, TASK_TIMEOUT) \<in> set (timers s)"
    using assms(3) TimeoutFired by simp
  have d: "distinct (map fst (timers s))" and k: "fst ` set (timers s) = inProgress s"
    using assms(1) by (simp_all add: inv_timers_def)
  from armed k have mem: "i \<in> inProgress s" by force
  have i0: "inv_tasks ?s0" by (rule inv_tasks_cong [OF assms(2)]) simp_all
  have ic: "inv_tasks ?c"
    using i0 mem by (simp add: inv_tasks_checkCompletion inv_tasks_mark_timed_out)
  have "inv_timers ?c"
    using remove1_keys [OF d armed] k
    by (simp add: inv_timers_def checkCompletion_sel mark_timed_out_def)
  moreover have "assignTask w now ?c = Inr s'"
    using assms(4) TimeoutFired mem by (simp add: timeoutCallback_def split: if_splits)
  ultimately show ?thesis using ic by (auto intro: inv_timers_assignTask)
next
  case (WorkerExit w)
  with assms(4) have "timers s' = timers s" "inProgress s' = inProgress s"
    by (auto simp: onExit_sel)
  with assms(1) show ?thesis by (rule inv_timers_cong)
next
  case (WorkerMessage w m)
  with assms show ?thesis by simp
next
  case IntervalTick
  with assms(4) have "timers s' = timers s" "inProgress s' = inProgress s"
    by (auto simp: updateConsole_def)
  with assms(1) show ?thesis by (rule inv_timers_cong)
qed

lemma reachable_inv_timers: "reachable s \<Longrightarrow> inv_timers s"
  by (induction rule: reachable.induct)
     (auto intro: inv_timers_init inv_timers_handle reachable_inv_tasks)

lemma armed_timer_in_progress:
  assumes "reachable s" "enabled s (TimeoutFired i w now)"
  shows "i \<in> inProgress s"
proof -
  have "fst ` set (timers s) = inProgress s"
    using reachable_inv_timers [OF assms(1)] by (simp add: inv_timers_def)
  moreover have "(i, w, TASK_TIMEOUT) \<in> set (timers s)" using assms(2) by simp
  ultimately show ?thesis by force
qed

subsection \<open>Tasks that have timed out stay timed out\<close>

lemma handle_length:
  "handle s e = Inr s' \<Longrightarrow> length (taskStatus s') = length (taskStatus s)"
proof (cases e)
  case (WorkerOnline w now)
  assume "handle s e = Inr s'"
  with WorkerOnline show ?thesis by (auto elim!: assignTask_Inr)
next
  case (TimeoutFired i w now)
  assume "handle s e = Inr s'"
  with TimeoutFired show ?thesis
    by (auto simp: timeoutCallback_def checkCompletion_sel mark_timed_out_def
        split: if_splits elim!: assignTask_Inr)
qed (auto simp: onExit_def fork_worker_def updateConsole_def Let_def)

lemma assignTask_keeps:
  assumes "inv_tasks c" "i < assigned c" "assignTask w now c = Inr s'"
  shows "taskStatus s' ! i = taskStatus c ! i"
  using assms(3)
proof (cases rule: assignTask_Inr)
  case idle
  then show ?thesis by simp
next
  case (sent t rest)
  from queue_head(2) [OF assms(1) sent(1)] have "index t = assigned c" by simp
  with assms(2) show ?thesis by (simp add: sent(4))
qed

lemma timed_out_assigned:
  assumes "inv_tasks s" "i < length (taskStatus s)" "status (taskStatus s ! i) = TimedOut"
  shows "i < assigned s" "i \<notin> inProgress s"
  using inv_tasks_status [OF assms(1,2)] assms(3) by (auto split: if_splits)

lemma terminal_step:
  assumes "inv_tasks s" "i < length (taskStatus s)" "status (taskStatus s ! i) = TimedOut"
    and "handle s e = Inr s'"
  shows "taskStatus s' ! i = taskStatus s ! i"
proof (cases e)
  case (WorkerOnline w now)
  let ?c = "s\<lparr>awaiting_online := awaiting_online s - {w}\<rparr>"
  have ic: "inv_tasks ?c" by (rule inv_tasks_cong [OF assms(1)]) simp_all
  have "i < assigned ?c" using timed_out_assigned(1) [OF assms(1-3)] by (simp add: assigned_def)
  from assignTask_keeps [OF ic this] assms(4) WorkerOnline show ?thesis by simp
next
  case (TimeoutFired j w now)
  let ?s0 = "s\<lparr>timers := remove1 (j, w, TASK_TIMEOUT) (timers s)\<rparr>"
  let ?c = "checkCompletion (mark_timed_out j ?s0)"
  have i0: "inv_tasks ?s0" by (rule inv_tasks_cong [OF assms(1)]) simp_all
  show ?thesis
  proof (cases "j \<in> inProgress s")
    case True
    with timed_out_assigned(2) [OF assms(1-3)] have ne: "j \<noteq> i" by auto
    have ic: "inv_tasks ?c"
      using i0 True by (simp add: inv_tasks_checkCompletion inv_tasks_mark_timed_out)
    have "i < assigned ?c"
      using timed_out_assigned(1) [OF assms(1-3)]
      by (simp add: assigned_def checkCompletion_sel mark_timed_out_def)
    moreover have "assignTask w now ?c = Inr s'"
      using assms(4) TimeoutFired True by (simp add: timeoutCallback_def split: if_splits)
    ultimately have "taskStatus s' ! i = taskStatus ?c ! i"
      by (rule assignTask_keeps [OF ic])
    also have "\<dots> = taskStatus s ! i"
      using ne by (simp add: checkCompletion_sel mark_timed_out_def)
    finally show ?thesis .
  next
    case False
    with assms(4) TimeoutFired show ?thesis by (auto simp: timeoutCallback_def)
  qed
next
  case (WorkerExit w)
  with assms(4) show ?thesis by (auto simp: onExit_def fork_worker_def Let_def)
next
  case (WorkerMessage w m)
  with assms(4) show ?thesis by simp
next
  case IntervalTick
  with assms(4) show ?thesis by (auto simp: updateConsole_def)
qed

lemma terminal_run:
  assumes "reachable s" "i < length (taskStatus s)" "status (taskStatus s ! i) = TimedOut"
    and "run s es = Some (Inr s')"
  shows "taskStatus s' ! i = taskStatus s ! i"
  using assms
proof (induction es arbitrary: s)
  case Nil
  then show ?case by simp
next
  case (Cons e es)
  from Cons.prems(4) obtain s1 where e: "enabled s e" and h: "handle s e = Inr s1"
    and r: "run s1 es = Some (Inr s')"
    by (auto split: if_splits sum.splits)
  from Cons.prems(1) e h have r1: "reachable s1" by (rule reachable.turn)
  have same: "taskStatus s1 ! i = taskStatus s ! i"
    using Cons.prems(1-3) h by (auto intro: terminal_step reachable_inv_tasks)
  have len: "i < length (taskStatus s1)"
    using handle_length [OF h] Cons.prems(2) by simp
  from Cons.IH [OF r1 len _ r] same Cons.prems(3) show ?case by simp
qed

lemma never_completed:
  assumes "reachable s"
  shows "completedTasks s = 0" and "pdfInfo s = []"
    and "i < length (taskStatus s) \<Longrightarrow> status (taskStatus s ! i) \<noteq> Completed"
proof -
  have it: "inv_tasks s" using assms by (rule reachable_inv_tasks)
  then show "completedTasks s = 0" "pdfInfo s = []" by (simp_all add: inv_tasks_def)
  show "i < length (taskStatus s) \<Longrightarrow> status (taskStatus s ! i) \<noteq> Completed"
    using inv_tasks_status [OF it, of i] by simp
qed

text \<open>
  C2. In a run, a task whose status is \<^verbatim>\<open>'Completed'\<close> or \<^verbatim>\<open>'Timed Out'\<close> keeps its entry
  of \<^verbatim>\<open>taskStatus\<close> through every further sequence of events. A message of a worker, the
  completed message for this task among them, leaves the whole state of the master as it
  is, and a timer of this task that fires changes no variable of the master.
\<close>

theorem terminal_immutable:
  assumes "reachable s" and "i < length (taskStatus s)"
    and "status (taskStatus s ! i) = Completed \<or> status (taskStatus s ! i) = TimedOut"
  shows "(\<forall>es s'. run s es = Some (Inr s') \<longrightarrow> taskStatus s' ! i = taskStatus s ! i)
     \<and> (\<forall>w m. handle s (WorkerMessage w m) = Inr s)
     \<and> (\<forall>w now. handle s (TimeoutFired i w now) =
           Inr (s\<lparr>timers := remove1 (i, w, TASK_TIMEOUT) (timers s)\<rparr>))"
proof -
  have it: "inv_tasks s" using assms(1) by (rule reachable_inv_tasks)
  from assms(3) never_completed(3) [OF assms(1,2)]
  have t: "status (taskStatus s ! i) = TimedOut" by simp
  have "i \<notin> inProgress s" by (rule timed_out_assigned(2) [OF it assms(2) t])
  then have "handle s (TimeoutFired i w now) =
           Inr (s\<lparr>timers := remove1 (i, w, TASK_TIMEOUT) (timers s)\<rparr>)" for w now
    by (simp add: timeoutCallback_def)
  moreover have "taskStatus s' ! i = taskStatus s ! i" if "run s es = Some (Inr s')" for es s'
    using assms(1,2) t that by (rule terminal_run)
  ultimately show ?thesis by simp
qed

theorem terminal_immutable_witness:
  "\<exists>s s'. run (init 1 [''a'', ''b'']) [WorkerOnline 1 0, TimeoutFired 0 1 300000] = Some (Inr s)
     \<and> reachable s \<and> status (taskStatus s ! 0) = TimedOut
     \<and> handle s (WorkerMessage 1 (CompletedMsg 0 1 ''1102-01.pdf'')) = Inr s
     \<and> run s [WorkerMessage 1 (CompletedMsg 0 1 ''1102-01.pdf''), TimeoutFired 1 1 600000]
           = Some (Inr s')
     \<and> status (taskStatus s' ! 0) = TimedOut"
proof -
  obtain s s' where r: "run (init 1 [''a'', ''b'']) [WorkerOnline 1 0, TimeoutFired 0 1 300000]
        = Some (Inr s)"
    and f: "length (taskStatus s) = 2" "status (taskStatus s ! 0) = TimedOut"
    and r': "run s [WorkerMessage 1 (CompletedMsg 0 1 ''1102-01.pdf''),
                      TimeoutFired 1 1 600000] = Some (Inr s')"
    using run_late_completed by blast
  have reach: "reachable s" by (rule run_reachable [OF reachable.start r])
  have "0 < length (taskStatus s)" using f by simp
  from terminal_immutable [OF reach this] f r'
  have "taskStatus s' ! 0 = taskStatus s ! 0"
    "handle s (WorkerMessage 1 (CompletedMsg 0 1 ''1102-01.pdf'')) = Inr s"
    by blast+
  with r reach f r' show ?thesis by auto
qed

end
